theory Spec2Isabelle
  imports Complex_Main
begin

section \<open>The tracker of \<^verbatim>\<open>src/patitos/visionPatitos.py\<close>\<close>

text \<open>
  The class \<^verbatim>\<open>PathTracker\<close> keeps two Python dictionaries keyed by track id
  (\<^verbatim>\<open>paths\<close>: id to list of observations, \<^verbatim>\<open>disappeared\<close>: id to missed-frame
  counter), the counter \<^verbatim>\<open>next_id\<close> and the bound \<^verbatim>\<open>max_disappeared\<close>.
  Python dictionaries iterate in insertion order, and the order of
  \<^verbatim>\<open>list(self.paths.keys())\<close> decides the rows of the distance matrix, so a dictionary
  is an association list in insertion order. An observation is the tuple the caller
  passes, of any length: a list of numbers. Coordinates and distances are real numbers:
  the rounding of the float arithmetic of numpy is not modelled, and neither is the
  arithmetic numpy uses for integer coordinates (64-bit wrap-around, object arrays for
  larger integers). The statements about the matching below speak of the entries of the
  matrix \<^verbatim>\<open>distances\<close> and of their order, not of their numeric values.
\<close>

subsection \<open>Errors and dictionaries\<close>

datatype error = KeyError | IndexError | ValueError

type_synonym obs = "real list"

type_synonym 'v dict = "(nat \<times> 'v) list"

definition dict_keys :: "'v dict \<Rightarrow> nat list" where
  "dict_keys d = map fst d"

definition dict_get :: "'v dict \<Rightarrow> nat \<Rightarrow> 'v option" where
  "dict_get d k = map_of d k"

text \<open>\<^verbatim>\<open>d[k] = v\<close>: an existing key keeps its place, a new key goes to the end.\<close>

fun dict_set :: "nat \<Rightarrow> 'v \<Rightarrow> 'v dict \<Rightarrow> 'v dict" where
  "dict_set k v [] = [(k, v)]"
| "dict_set k v (p # ps) = (if fst p = k then (k, v) # ps else p # dict_set k v ps)"

text \<open>\<^verbatim>\<open>del d[k]\<close>, for a key that is present (the callers test it).\<close>

definition dict_del :: "nat \<Rightarrow> 'v dict \<Rightarrow> 'v dict" where
  "dict_del k d = filter (\<lambda>p. fst p \<noteq> k) d"

text \<open>\<^verbatim>\<open>d[k].append(v)\<close>, for a key that is present.\<close>

definition dict_append :: "nat \<Rightarrow> 'a \<Rightarrow> 'a list dict \<Rightarrow> 'a list dict" where
  "dict_append k v d = map (\<lambda>p. if fst p = k then (fst p, snd p @ [v]) else p) d"

subsection \<open>The tracker state\<close>

record tracker =
  paths :: "obs list dict"
  disappeared :: "nat dict"
  next_id :: nat
  max_disappeared :: nat

definition PathTracker_init :: tracker where
  "PathTracker_init = \<lparr>paths = [], disappeared = [], next_id = 0, max_disappeared = 10\<rparr>"

text \<open>
  The body shared by the two ageing loops of \<^verbatim>\<open>update\<close>:
  \<^verbatim>\<open>self.disappeared[obj_id] += 1\<close>, then, if the counter exceeds
  \<^verbatim>\<open>max_disappeared\<close>, \<^verbatim>\<open>del self.paths[obj_id]\<close> and
  \<^verbatim>\<open>del self.disappeared[obj_id]\<close>. A missing key raises \<^verbatim>\<open>KeyError\<close>.
\<close>

definition disappear :: "nat \<Rightarrow> tracker \<Rightarrow> error + tracker" where
  "disappear obj_id s =
     (case dict_get (disappeared s) obj_id of
        None \<Rightarrow> Inl KeyError
      | Some c \<Rightarrow>
          (let s1 = s\<lparr>disappeared := dict_set obj_id (c + 1) (disappeared s)\<rparr> in
           if c + 1 > max_disappeared s1 then
             (if obj_id \<in> set (dict_keys (paths s1)) then
                Inr (s1\<lparr>paths := dict_del obj_id (paths s1),
                        disappeared := dict_del obj_id (disappeared s1)\<rparr>)
              else Inl KeyError)
           else Inr s1))"

fun disappear_all :: "nat list \<Rightarrow> tracker \<Rightarrow> error + tracker" where
  "disappear_all [] s = Inr s"
| "disappear_all (obj_id # ids) s =
     (case disappear obj_id s of Inl e \<Rightarrow> Inl e | Inr s' \<Rightarrow> disappear_all ids s')"

text \<open>
  The body shared by the two seeding loops:
  \<^verbatim>\<open>self.paths[self.next_id] = [detection]\<close>,
  \<^verbatim>\<open>self.disappeared[self.next_id] = 0\<close>, \<^verbatim>\<open>self.next_id += 1\<close>.
\<close>

definition register :: "obs \<Rightarrow> tracker \<Rightarrow> tracker" where
  "register detection s =
     s\<lparr>paths := dict_set (next_id s) [detection] (paths s),
       disappeared := dict_set (next_id s) 0 (disappeared s),
       next_id := next_id s + 1\<rparr>"

fun register_all :: "obs list \<Rightarrow> tracker \<Rightarrow> tracker" where
  "register_all [] s = s"
| "register_all (detection # ds) s = register_all ds (register detection s)"

subsection \<open>Distances\<close>

text \<open>
  \<^verbatim>\<open>np.array(a) - np.array(b)\<close> on one-dimensional arrays: elementwise for equal
  lengths, broadcast when one of them has length one, \<^verbatim>\<open>ValueError\<close> otherwise.
\<close>

definition np_sub :: "real list \<Rightarrow> real list \<Rightarrow> error + real list" where
  "np_sub a b =
     (if length a = length b then Inr (map (\<lambda>(x, y). x - y) (zip a b))
      else if length a = 1 then Inr (map (\<lambda>y. hd a - y) b)
      else if length b = 1 then Inr (map (\<lambda>x. x - hd b) a)
      else Inl ValueError)"

definition linalg_norm :: "real list \<Rightarrow> real" where
  "linalg_norm v = sqrt (sum_list (map (\<lambda>x. x\<^sup>2) v))"

text \<open>
  \<^verbatim>\<open>np.linalg.norm(np.array(prev_centroid[:2]) - np.array(detection[:2]))\<close>
\<close>

definition centroid_distance :: "obs \<Rightarrow> obs \<Rightarrow> error + real" where
  "centroid_distance prev_centroid detection =
     (case np_sub (take 2 prev_centroid) (take 2 detection) of
        Inl e \<Rightarrow> Inl e
      | Inr v \<Rightarrow> Inr (linalg_norm v))"

text \<open>
  \<^verbatim>\<open>[self.paths[obj_id][-1] for obj_id in object_ids]\<close>; \<^verbatim>\<open>[][-1]\<close> raises
  \<^verbatim>\<open>IndexError\<close>.
\<close>

definition previous_centroids :: "obs list dict \<Rightarrow> error + obs list" where
  "previous_centroids d =
     (if [] \<in> set (map snd d) then Inl IndexError else Inr (map (\<lambda>p. last (snd p)) d))"

text \<open>
  The matrix \<^verbatim>\<open>distances[i, j]\<close>, filled for every pair before any matching; the
  only error a cell can raise is the \<^verbatim>\<open>ValueError\<close> of the subtraction.
\<close>

definition distance_matrix :: "obs list \<Rightarrow> obs list \<Rightarrow> error + real list list" where
  "distance_matrix prevs detections =
     (if \<exists>p \<in> set prevs. \<exists>d \<in> set detections. isl (centroid_distance p d)
      then Inl ValueError
      else Inr (map (\<lambda>p. map (\<lambda>d. projr (centroid_distance p d)) detections) prevs))"

subsection \<open>The matching loop\<close>

text \<open>\<^verbatim>\<open>np.argmin\<close> of a flat array: the index of the first occurrence of the minimum.\<close>

fun argmin :: "real list \<Rightarrow> nat" where
  "argmin [] = 0"
| "argmin [x] = 0"
| "argmin (x # y # ys) = (let k = argmin (y # ys) in if x \<le> (y # ys) ! k then 0 else Suc k)"

text \<open>\<^verbatim>\<open>xs.pop(i)\<close>, for an index in range.\<close>

definition pop :: "nat \<Rightarrow> 'a list \<Rightarrow> 'a list" where
  "pop i xs = take i xs @ drop (Suc i) xs"

lemma argmin_less: "xs \<noteq> [] \<Longrightarrow> argmin xs < length xs"
  by (induction xs rule: argmin.induct) (auto simp: Let_def)

lemma length_pop: "i < length xs \<Longrightarrow> length (pop i xs) < length xs"
  by (auto simp: pop_def)

text \<open>
  \<^verbatim>\<open>distances[rows_idx, :][:, cols_idx]\<close>, flattened in row-major order as
  \<^verbatim>\<open>np.argmin\<close> reads it.
\<close>

definition submatrix_flat :: "real list list \<Rightarrow> nat list \<Rightarrow> nat list \<Rightarrow> real list" where
  "submatrix_flat distances rows_idx cols_idx =
     concat (map (\<lambda>r. map (\<lambda>c. distances ! r ! c) cols_idx) rows_idx)"

lemma length_submatrix_flat:
  "length (submatrix_flat dm rs cs) = length rs * length cs"
  by (induction rs) (auto simp: submatrix_flat_def)

lemma unravel_row_less:
  assumes "rs \<noteq> []" "cs \<noteq> []"
  shows "argmin (submatrix_flat dm rs cs) div length cs < length rs"
proof -
  have "submatrix_flat dm rs cs \<noteq> []"
    using assms length_submatrix_flat [of dm rs cs] by (metis length_0_conv mult_is_0)
  then have "argmin (submatrix_flat dm rs cs) < length rs * length cs"
    using argmin_less [of "submatrix_flat dm rs cs"] by (simp add: length_submatrix_flat)
  then show ?thesis
    using assms by (simp add: less_mult_imp_div_less)
qed

text \<open>
  The \<^verbatim>\<open>while\<close> loop of \<^verbatim>\<open>update\<close>. \<^verbatim>\<open>np.unravel_index\<close> of the flat index over
  the shape \<^verbatim>\<open>(len(rows_idx), len(cols_idx))\<close> is the quotient and the remainder by
  the number of columns. The loop returns the index lists it leaves and the tracker.
  No access inside the loop can fail when \<^verbatim>\<open>update\<close> calls it: the index lists are
  sublists of the ranges of the matrix, \<^verbatim>\<open>object_ids\<close> are the keys of \<^verbatim>\<open>paths\<close>,
  and the loop deletes no key (lemmas \<open>unravel_row_less\<close>, \<open>pick_in_range\<close> and
  \<open>matched_pairs_subset\<close> below).
\<close>

function match_loop ::
  "real list list \<Rightarrow> nat list \<Rightarrow> obs list \<Rightarrow> nat list \<Rightarrow> nat list \<Rightarrow> tracker
     \<Rightarrow> nat list \<times> nat list \<times> tracker" where
  "match_loop distances object_ids detections rows_idx cols_idx s =
     (if length rows_idx > 0 \<and> length cols_idx > 0 then
        (let min_idx = argmin (submatrix_flat distances rows_idx cols_idx);
             i = min_idx div length cols_idx;
             j = min_idx mod length cols_idx;
             row = rows_idx ! i;
             col = cols_idx ! j
         in if distances ! row ! col < 100 then
              match_loop distances object_ids detections (pop i rows_idx) (pop j cols_idx)
                (s\<lparr>paths := dict_append (object_ids ! row) (detections ! col) (paths s),
                   disappeared := dict_set (object_ids ! row) 0 (disappeared s)\<rparr>)
            else (rows_idx, cols_idx, s))
      else (rows_idx, cols_idx, s))"
  by pat_completeness auto
termination
proof (relation "measure (\<lambda>(distances, object_ids, detections, rows_idx, cols_idx, s). length rows_idx)")
  show "wf (measure (\<lambda>(distances, object_ids, detections, rows_idx, cols_idx, s). length rows_idx))"
    by simp
next
  fix distances :: "real list list" and object_ids :: "nat list" and detections :: "obs list"
    and rows_idx cols_idx :: "nat list" and s :: tracker and min_idx i j row col :: nat
  assume "0 < length rows_idx \<and> 0 < length cols_idx"
    and "min_idx = argmin (submatrix_flat distances rows_idx cols_idx)"
    and "i = min_idx div length cols_idx"
  then have "i < length rows_idx"
    using unravel_row_less [of rows_idx cols_idx distances] by simp
  then show "((distances, object_ids, detections, pop i rows_idx, pop j cols_idx,
        s\<lparr>paths := dict_append (object_ids ! row) (detections ! col) (paths s),
          disappeared := dict_set (object_ids ! row) 0 (disappeared s)\<rparr>),
       distances, object_ids, detections, rows_idx, cols_idx, s)
      \<in> measure (\<lambda>(distances, object_ids, detections, rows_idx, cols_idx, s). length rows_idx)"
    using length_pop [of i rows_idx] by simp
qed

declare match_loop.simps [simp del]

subsection \<open>\<^verbatim>\<open>PathTracker.update\<close>\<close>

text \<open>
  The method returns \<^verbatim>\<open>self.paths\<close>; the model returns the whole tracker, whose
  field \<open>paths\<close> is the returned mapping.
\<close>

definition update :: "tracker \<Rightarrow> obs list \<Rightarrow> error + tracker" where
  "update s detections =
     (if length detections = 0 then disappear_all (dict_keys (disappeared s)) s
      else if length (paths s) = 0 then Inr (register_all detections s)
      else
        (let object_ids = dict_keys (paths s) in
         case previous_centroids (paths s) of
           Inl e \<Rightarrow> Inl e
         | Inr prevs \<Rightarrow>
             (case distance_matrix prevs detections of
                Inl e \<Rightarrow> Inl e
              | Inr distances \<Rightarrow>
                  (let (rows_idx, cols_idx, s1) =
                         (if length prevs * length detections > 0
                          then match_loop distances object_ids detections
                                 [0..<length prevs] [0..<length detections] s
                          else ([0..<length prevs], [0..<length detections], s));
                       s2 = register_all (map (\<lambda>col. detections ! col) cols_idx) s1
                   in disappear_all (map (\<lambda>row. object_ids ! row) rows_idx) s2))))"

text \<open>A sequence of frames, stopping at the first exception.\<close>

fun updates :: "tracker \<Rightarrow> obs list list \<Rightarrow> error + tracker" where
  "updates s [] = Inr s"
| "updates s (detections # frames) =
     (case update s detections of Inl e \<Rightarrow> Inl e | Inr s' \<Rightarrow> updates s' frames)"

subsection \<open>\<^verbatim>\<open>calculate_speed\<close>\<close>

text \<open>
  A float, as Python and numpy have it: a finite number (\<open>Finite 0\<close> is the positive
  zero), the negative zero, an infinity or \<^verbatim>\<open>nan\<close>.
\<close>

datatype np_float = Finite real | NegZero | PosInf | NegInf | NaN

text \<open>
  What \<^verbatim>\<open>calculate_speed\<close> returns: the Python integer of \<^verbatim>\<open>return 0\<close>, or the
  numpy float of the division.
\<close>

datatype py_number = PyInt int | NpFloat np_float

text \<open>
  The float operations that round are parameters of the model: the subtraction of two
  coordinates, \<^verbatim>\<open>np.hypot\<close>, and the quotient by a divisor that is not a zero.
\<close>

record float_arith =
  fsub :: "np_float \<Rightarrow> np_float \<Rightarrow> np_float"
  fhypot :: "np_float \<Rightarrow> np_float \<Rightarrow> np_float"
  fquot :: "np_float \<Rightarrow> np_float \<Rightarrow> np_float"

definition is_zero :: "np_float \<Rightarrow> bool" where
  "is_zero x \<longleftrightarrow> x = Finite 0 \<or> x = NegZero"

text \<open>The sign bit of a float.\<close>

fun negative :: "np_float \<Rightarrow> bool" where
  "negative (Finite r) = (r < 0)"
| "negative NegZero = True"
| "negative PosInf = False"
| "negative NegInf = True"
| "negative NaN = False"

text \<open>
  \<^verbatim>\<open>x / y\<close> where \<^verbatim>\<open>x\<close> is a numpy float. With a zero divisor of either sign numpy
  warns and does not raise: the result is \<^verbatim>\<open>nan\<close> when \<^verbatim>\<open>x\<close> is a zero or
  \<^verbatim>\<open>nan\<close>, and otherwise the infinity whose sign is the product of the two signs.
\<close>

definition np_divide :: "float_arith \<Rightarrow> np_float \<Rightarrow> np_float \<Rightarrow> np_float" where
  "np_divide fa x y =
     (if is_zero y then
        (if x = NaN \<or> is_zero x then NaN
         else if negative x = negative y then PosInf else NegInf)
      else fquot fa x y)"

definition calculate_speed ::
  "float_arith \<Rightarrow> (np_float \<times> np_float) list \<Rightarrow> np_float \<Rightarrow> py_number" where
  "calculate_speed fa points time_diff =
     (if length points < 2 then PyInt 0
      else
        (let p1 = points ! (length points - 2);
             p2 = points ! (length points - 1);
             distance = fhypot fa (fsub fa (fst p2) (fst p1)) (fsub fa (snd p2) (snd p1))
         in NpFloat (np_divide fa distance time_diff)))"

text \<open>The number is a zero: the integer 0 or a float zero of either sign.\<close>

fun is_zero_number :: "py_number \<Rightarrow> bool" where
  "is_zero_number (PyInt i) = (i = 0)"
| "is_zero_number (NpFloat x) = is_zero x"

section \<open>Definitions for the statements\<close>

subsection \<open>The loop body by parts\<close>

text \<open>
  Names for the parts of the loop body: the position \<open>(i, j)\<close> the loop selects in the
  two index lists, the effect of one committed match on the tracker, and the list of the
  pairs \<open>(row, col)\<close> the loop commits, in order (the loop itself keeps no such list).
\<close>

definition pick :: "real list list \<Rightarrow> nat list \<Rightarrow> nat list \<Rightarrow> nat \<times> nat" where
  "pick distances rows_idx cols_idx =
     (let min_idx = argmin (submatrix_flat distances rows_idx cols_idx)
      in (min_idx div length cols_idx, min_idx mod length cols_idx))"

definition commit :: "nat list \<Rightarrow> obs list \<Rightarrow> nat \<times> nat \<Rightarrow> tracker \<Rightarrow> tracker" where
  "commit object_ids detections rc s =
     s\<lparr>paths := dict_append (object_ids ! fst rc) (detections ! snd rc) (paths s),
       disappeared := dict_set (object_ids ! fst rc) 0 (disappeared s)\<rparr>"

function matched_pairs :: "real list list \<Rightarrow> nat list \<Rightarrow> nat list \<Rightarrow> (nat \<times> nat) list" where
  "matched_pairs distances rows_idx cols_idx =
     (if length rows_idx > 0 \<and> length cols_idx > 0 then
        (let min_idx = argmin (submatrix_flat distances rows_idx cols_idx);
             i = min_idx div length cols_idx;
             j = min_idx mod length cols_idx;
             row = rows_idx ! i;
             col = cols_idx ! j
         in if distances ! row ! col < 100 then
              (row, col) # matched_pairs distances (pop i rows_idx) (pop j cols_idx)
            else [])
      else [])"
  by pat_completeness auto
termination
proof (relation "measure (\<lambda>(distances, rows_idx, cols_idx). length rows_idx)")
  show "wf (measure (\<lambda>(distances, rows_idx, cols_idx). length rows_idx))"
    by simp
next
  fix distances :: "real list list" and rows_idx cols_idx :: "nat list" and min_idx i j :: nat
  assume "0 < length rows_idx \<and> 0 < length cols_idx"
    and "min_idx = argmin (submatrix_flat distances rows_idx cols_idx)"
    and "i = min_idx div length cols_idx"
  then have "i < length rows_idx"
    using unravel_row_less [of rows_idx cols_idx distances] by simp
  then show "((distances, pop i rows_idx, pop j cols_idx), distances, rows_idx, cols_idx)
      \<in> measure (\<lambda>(distances, rows_idx, cols_idx). length rows_idx)"
    using length_pop [of i rows_idx] by simp
qed

declare matched_pairs.simps [simp del]

subsection \<open>The three phases of the general case\<close>

text \<open>
  What \<^verbatim>\<open>update\<close> computes in the general case, by name: the distance matrix when no
  cell raises, the pairs the loop commits, the detections left unmatched
  (\<^verbatim>\<open>cols_idx\<close> after the loop) and the tracks left unmatched (\<^verbatim>\<open>rows_idx\<close> after
  the loop).
\<close>

definition frame_distances :: "tracker \<Rightarrow> obs list \<Rightarrow> real list list" where
  "frame_distances s detections =
     map (\<lambda>p. map (\<lambda>d. projr (centroid_distance p d)) detections)
       (map (\<lambda>p. last (snd p)) (paths s))"

definition frame_matches :: "tracker \<Rightarrow> obs list \<Rightarrow> (nat \<times> nat) list" where
  "frame_matches s detections =
     matched_pairs (frame_distances s detections) [0..<length (paths s)] [0..<length detections]"

definition unmatched_cols :: "tracker \<Rightarrow> obs list \<Rightarrow> nat list" where
  "unmatched_cols s detections =
     filter (\<lambda>c. c \<notin> snd ` set (frame_matches s detections)) [0..<length detections]"

definition unmatched_rows :: "tracker \<Rightarrow> obs list \<Rightarrow> nat list" where
  "unmatched_rows s detections =
     filter (\<lambda>r. r \<notin> fst ` set (frame_matches s detections)) [0..<length (paths s)]"

text \<open>No pair of a stored last observation and a detection makes the subtraction fail.\<close>

definition shapes_ok :: "tracker \<Rightarrow> obs list \<Rightarrow> bool" where
  "shapes_ok s detections \<longleftrightarrow>
     (\<forall>p \<in> set (paths s). \<forall>d \<in> set detections. \<not> isl (centroid_distance (last (snd p)) d))"

text \<open>
  The invariant of the tracker: both dictionaries have the same keys, every key is below
  \<^verbatim>\<open>next_id\<close>, no history is empty, and no stored counter exceeds
  \<^verbatim>\<open>max_disappeared\<close>. (That the keys of an association list are distinct is what makes
  it a dictionary.)
\<close>

definition tracker_inv :: "tracker \<Rightarrow> bool" where
  "tracker_inv s \<longleftrightarrow>
     distinct (dict_keys (paths s)) \<and> distinct (dict_keys (disappeared s)) \<and>
     set (dict_keys (paths s)) = set (dict_keys (disappeared s)) \<and>
     (\<forall>k \<in> set (dict_keys (paths s)). k < next_id s) \<and>
     [] \<notin> set (map snd (paths s)) \<and>
     (\<forall>c \<in> set (map snd (disappeared s)). c \<le> max_disappeared s)"

subsection \<open>Ageing\<close>

text \<open>
  The counter a track has after one more missed frame (\<open>None\<close> when the track is then
  removed, or has no counter), and whether one more missed frame removes it.
\<close>

definition aged_counter :: "tracker \<Rightarrow> nat \<Rightarrow> nat option" where
  "aged_counter s k =
     (case dict_get (disappeared s) k of
        None \<Rightarrow> None
      | Some c \<Rightarrow> if max_disappeared s < c + 1 then None else Some (c + 1))"

definition expires :: "tracker \<Rightarrow> nat \<Rightarrow> bool" where
  "expires s k =
     (case dict_get (disappeared s) k of None \<Rightarrow> False | Some c \<Rightarrow> max_disappeared s < c + 1)"

subsection \<open>The loop after n committed matches\<close>

text \<open>
  The values of \<^verbatim>\<open>rows_idx\<close> and \<^verbatim>\<open>cols_idx\<close> after \<open>n\<close> committed matches of
  the general case of \<^verbatim>\<open>update\<close>.
\<close>

definition rows_left :: "tracker \<Rightarrow> obs list \<Rightarrow> nat \<Rightarrow> nat list" where
  "rows_left s detections n =
     filter (\<lambda>r. r \<notin> fst ` set (take n (frame_matches s detections))) [0..<length (paths s)]"

definition cols_left :: "tracker \<Rightarrow> obs list \<Rightarrow> nat \<Rightarrow> nat list" where
  "cols_left s detections n =
     filter (\<lambda>c. c \<notin> snd ` set (take n (frame_matches s detections))) [0..<length detections]"

subsection \<open>Sequences of frames\<close>

text \<open>
  The ids a call issues are the keys of \<^verbatim>\<open>paths\<close> after the call that were not keys
  before it; \<open>issued\<close> lists the ids issued along a sequence of frames.
\<close>

definition new_ids :: "tracker \<Rightarrow> tracker \<Rightarrow> nat list" where
  "new_ids s s' = filter (\<lambda>k. k \<notin> set (dict_keys (paths s))) (dict_keys (paths s'))"

fun issued :: "tracker \<Rightarrow> obs list list \<Rightarrow> nat list" where
  "issued s [] = []"
| "issued s (detections # frames) =
     (case update s detections of
        Inl e \<Rightarrow> []
      | Inr s' \<Rightarrow> new_ids s s' @ issued s' frames)"

text \<open>
  The ids of the tracks a frame matches, and: track \<open>k\<close> is matched in none of the
  frames of a sequence.
\<close>

definition matched_ids :: "tracker \<Rightarrow> obs list \<Rightarrow> nat list" where
  "matched_ids s detections =
     map (\<lambda>rc. dict_keys (paths s) ! fst rc) (frame_matches s detections)"

fun unmatched_during :: "nat \<Rightarrow> tracker \<Rightarrow> obs list list \<Rightarrow> bool" where
  "unmatched_during k s [] = True"
| "unmatched_during k s (detections # frames) =
     (k \<notin> set (matched_ids s detections) \<and>
      (case update s detections of
         Inl e \<Rightarrow> True
       | Inr s' \<Rightarrow> unmatched_during k s' frames))"

section \<open>Facts about the model\<close>

subsection \<open>Facts about dictionaries\<close>

lemma dict_get_None_iff: "dict_get d k = None \<longleftrightarrow> k \<notin> set (dict_keys d)"
  by (simp add: dict_get_def dict_keys_def map_of_eq_None_iff)

lemma dict_keys_dict_set: "set (dict_keys (dict_set k v d)) = insert k (set (dict_keys d))"
  by (induction d) (auto simp: dict_keys_def)

lemma dict_get_dict_set: "dict_get (dict_set k v d) k' = (if k' = k then Some v else dict_get d k')"
  by (induction d) (auto simp: dict_get_def)

lemma fst_set_dict_set: "fst ` set (dict_set k v d) = insert k (fst ` set d)"
  by (induction d) auto

lemma distinct_dict_set: "distinct (dict_keys d) \<Longrightarrow> distinct (dict_keys (dict_set k v d))"
  by (induction d) (auto simp: dict_keys_def fst_set_dict_set)

lemma dict_keys_dict_del: "set (dict_keys (dict_del k d)) = set (dict_keys d) - {k}"
  by (auto simp: dict_keys_def dict_del_def)

lemma dict_get_dict_del: "dict_get (dict_del k d) k' = (if k' = k then None else dict_get d k')"
  by (induction d) (auto simp: dict_get_def dict_del_def)

lemma distinct_dict_del: "distinct (dict_keys d) \<Longrightarrow> distinct (dict_keys (dict_del k d))"
  by (simp add: dict_keys_def dict_del_def distinct_map_filter)

lemma dict_keys_dict_append: "dict_keys (dict_append k v d) = dict_keys d"
  by (induction d) (auto simp: dict_keys_def dict_append_def)

lemma dict_get_dict_append:
  "dict_get (dict_append k v d) k' =
     (if k' = k then map_option (\<lambda>h. h @ [v]) (dict_get d k) else dict_get d k')"
  by (induction d) (auto simp: dict_get_def dict_append_def)

subsection \<open>Facts about the selection of the smallest distance\<close>

lemma argmin_le: "y \<in> set xs \<Longrightarrow> xs ! argmin xs \<le> y"
proof (induction xs rule: argmin.induct)
  case 1
  then show ?case by simp
next
  case (2 x)
  then show ?case by simp
next
  case (3 x y' ys)
  show ?case
  proof (cases "x \<le> (y' # ys) ! argmin (y' # ys)")
    case True
    have "y \<in> set (y' # ys) \<Longrightarrow> (y' # ys) ! argmin (y' # ys) \<le> y"
      using "3.IH" by simp
    with True "3.prems" show ?thesis by (auto simp: Let_def)
  next
    case False
    have "y \<in> set (y' # ys) \<Longrightarrow> (y' # ys) ! argmin (y' # ys) \<le> y"
      using "3.IH" by simp
    with False "3.prems" show ?thesis by (auto simp: Let_def)
  qed
qed

lemma argmin_first: "k < argmin xs \<Longrightarrow> xs ! argmin xs < xs ! k"
proof (induction xs arbitrary: k rule: argmin.induct)
  case 1
  then show ?case by simp
next
  case (2 x)
  then show ?case by simp
next
  case (3 x y' ys)
  show ?case
  proof (cases "x \<le> (y' # ys) ! argmin (y' # ys)")
    case True
    with "3.prems" show ?thesis by (simp add: Let_def)
  next
    case False
    show ?thesis
    proof (cases k)
      case 0
      with False show ?thesis by (simp add: Let_def)
    next
      case (Suc k')
      with False "3.prems" have "k' < argmin (y' # ys)" by (simp add: Let_def)
      from "3.IH" [OF this] False Suc show ?thesis by (simp add: Let_def)
    qed
  qed
qed

lemma submatrix_flat_nth:
  "k < length rs * length cs \<Longrightarrow>
     submatrix_flat dm rs cs ! k = dm ! (rs ! (k div length cs)) ! (cs ! (k mod length cs))"
proof (induction rs arbitrary: k)
  case Nil
  then show ?case by simp
next
  case (Cons r rs)
  have flat: "submatrix_flat dm (r # rs) cs = map (\<lambda>c. dm ! r ! c) cs @ submatrix_flat dm rs cs"
    by (simp add: submatrix_flat_def)
  show ?case
  proof (cases "k < length cs")
    case True
    then show ?thesis by (simp add: flat nth_append)
  next
    case False
    then have ge: "length cs \<le> k" by simp
    with Cons.prems have "k - length cs < length rs * length cs" by simp
    from Cons.IH [OF this] have
      "submatrix_flat dm rs cs ! (k - length cs) =
         dm ! (rs ! ((k - length cs) div length cs)) ! (cs ! ((k - length cs) mod length cs))" .
    moreover have "(k - length cs) mod length cs = k mod length cs"
      using ge by (simp add: le_mod_geq)
    moreover have "k div length cs = Suc ((k - length cs) div length cs)"
    proof -
      have "0 < length cs" using Cons.prems by (cases cs) auto
      then show ?thesis using ge by (rule le_div_geq)
    qed
    ultimately show ?thesis
      using False by (simp add: flat nth_append)
  qed
qed

subsection \<open>Facts about the loop body\<close>

lemma pick_in_range:
  assumes "rs \<noteq> []" "cs \<noteq> []" "pick dm rs cs = (i, j)"
  shows "i < length rs" "j < length cs"
  using assms unravel_row_less [of rs cs dm] by (auto simp: pick_def Let_def)

lemma pick_value:
  assumes "rs \<noteq> []" "cs \<noteq> []" "pick dm rs cs = (i, j)"
  shows "submatrix_flat dm rs cs ! argmin (submatrix_flat dm rs cs) = dm ! (rs ! i) ! (cs ! j)"
proof -
  have "submatrix_flat dm rs cs \<noteq> []"
    using assms length_submatrix_flat [of dm rs cs] by (metis length_0_conv mult_is_0)
  then have "argmin (submatrix_flat dm rs cs) < length rs * length cs"
    using argmin_less [of "submatrix_flat dm rs cs"] by (simp add: length_submatrix_flat)
  from submatrix_flat_nth [OF this, of dm] assms(3) show ?thesis
    by (auto simp: pick_def Let_def)
qed

lemma submatrix_flat_mem:
  assumes "r \<in> set rs" "c \<in> set cs"
  shows "dm ! r ! c \<in> set (submatrix_flat dm rs cs)"
  using assms by (auto simp: submatrix_flat_def)

lemma pick_min:
  assumes "rs \<noteq> []" "cs \<noteq> []" "pick dm rs cs = (i, j)" "r \<in> set rs" "c \<in> set cs"
  shows "dm ! (rs ! i) ! (cs ! j) \<le> dm ! r ! c"
  using argmin_le [OF submatrix_flat_mem [OF assms(4,5), of dm]] pick_value [OF assms(1-3)]
  by simp

lemma pick_first:
  assumes "rs \<noteq> []" "cs \<noteq> []" "pick dm rs cs = (i, j)"
    and "i' < length rs" "j' < length cs" "i' < i \<or> (i' = i \<and> j' < j)"
  shows "dm ! (rs ! i) ! (cs ! j) < dm ! (rs ! i') ! (cs ! j')"
proof -
  let ?n = "length cs"
  let ?m = "argmin (submatrix_flat dm rs cs)"
  have ij: "i = ?m div ?n" "j = ?m mod ?n"
    using assms(3) by (auto simp: pick_def Let_def)
  have n: "0 < ?n" using assms(2) by simp
  let ?k = "i' * ?n + j'"
  have kdiv: "?k div ?n = i'" and kmod: "?k mod ?n = j'"
    using assms(5) n by simp_all
  have "?k < ?m"
  proof (rule ccontr)
    assume "\<not> ?k < ?m"
    then have le: "?m \<le> ?k" by simp
    then have "?m div ?n \<le> ?k div ?n" by (rule div_le_mono)
    then have "i \<le> i'" using ij kdiv by simp
    with assms(6) have eq: "i' = i" and lt: "j' < j" by auto
    have "?m = i * ?n + j" using ij by simp
    with le eq lt show False by simp
  qed
  from argmin_first [OF this] have "submatrix_flat dm rs cs ! ?m < submatrix_flat dm rs cs ! ?k" .
  moreover have "?k < length rs * ?n"
  proof -
    have "?k < i' * ?n + ?n" using assms(5) by simp
    also have "\<dots> = Suc i' * ?n" by simp
    also have "\<dots> \<le> length rs * ?n" using assms(4) by (intro mult_le_mono1) simp
    finally show ?thesis .
  qed
  ultimately show ?thesis
    using submatrix_flat_nth [of ?k rs cs dm] pick_value [OF assms(1-3)] kdiv kmod by simp
qed

lemma match_loop_empty:
  "rs = [] \<or> cs = [] \<Longrightarrow> match_loop dm oids ds rs cs s = (rs, cs, s)"
  by (auto simp: match_loop.simps [of dm oids ds rs cs s])

lemma match_loop_commit:
  assumes "rs \<noteq> []" "cs \<noteq> []" "pick dm rs cs = (i, j)" "dm ! (rs ! i) ! (cs ! j) < 100"
  shows "match_loop dm oids ds rs cs s =
           match_loop dm oids ds (pop i rs) (pop j cs) (commit oids ds (rs ! i, cs ! j) s)"
  using assms by (subst match_loop.simps) (auto simp: pick_def Let_def commit_def)

lemma match_loop_stop:
  assumes "rs \<noteq> []" "cs \<noteq> []" "pick dm rs cs = (i, j)" "\<not> dm ! (rs ! i) ! (cs ! j) < 100"
  shows "match_loop dm oids ds rs cs s = (rs, cs, s)"
  using assms by (subst match_loop.simps) (auto simp: pick_def Let_def)

lemma matched_pairs_empty:
  "rs = [] \<or> cs = [] \<Longrightarrow> matched_pairs dm rs cs = []"
  by (auto simp: matched_pairs.simps [of dm rs cs])

lemma matched_pairs_commit:
  assumes "rs \<noteq> []" "cs \<noteq> []" "pick dm rs cs = (i, j)" "dm ! (rs ! i) ! (cs ! j) < 100"
  shows "matched_pairs dm rs cs = (rs ! i, cs ! j) # matched_pairs dm (pop i rs) (pop j cs)"
  using assms by (subst matched_pairs.simps) (auto simp: pick_def Let_def)

lemma matched_pairs_stop:
  assumes "rs \<noteq> []" "cs \<noteq> []" "pick dm rs cs = (i, j)" "\<not> dm ! (rs ! i) ! (cs ! j) < 100"
  shows "matched_pairs dm rs cs = []"
  using assms by (subst matched_pairs.simps) (auto simp: pick_def Let_def)

lemma pop_filter:
  assumes "distinct xs" "i < length xs"
  shows "pop i xs = filter (\<lambda>x. x \<noteq> xs ! i) xs"
proof -
  have xs: "xs = take i xs @ xs ! i # drop (Suc i) xs"
    using assms(2) by (rule id_take_nth_drop)
  with assms(1) have "distinct (take i xs @ xs ! i # drop (Suc i) xs)" by simp
  then have a: "xs ! i \<notin> set (take i xs)" and b: "xs ! i \<notin> set (drop (Suc i) xs)"
    by auto
  have "filter (\<lambda>x. x \<noteq> xs ! i) (take i xs) = take i xs"
    using a by (simp add: filter_id_conv) metis
  moreover have "filter (\<lambda>x. x \<noteq> xs ! i) (drop (Suc i) xs) = drop (Suc i) xs"
    using b by (simp add: filter_id_conv) metis
  ultimately have "filter (\<lambda>x. x \<noteq> xs ! i) (take i xs @ xs ! i # drop (Suc i) xs)
          = take i xs @ drop (Suc i) xs"
    by simp
  with xs show ?thesis by (simp add: pop_def)
qed

lemma distinct_pop:
  assumes "distinct xs"
  shows "distinct (pop i xs)"
proof -
  have "distinct (take i xs @ drop i xs)" using assms by simp
  then have "distinct (take i xs)" "distinct (drop i xs)" "set (take i xs) \<inter> set (drop i xs) = {}"
    by (simp_all only: distinct_append) 
  moreover have "set (drop (Suc i) xs) \<subseteq> set (drop i xs)"
    by (simp add: set_drop_subset_set_drop)
  moreover have "distinct (drop (Suc i) xs)" using assms by simp
  ultimately show ?thesis unfolding pop_def by (auto simp only: distinct_append)
qed

lemma set_pop: "distinct xs \<Longrightarrow> i < length xs \<Longrightarrow> set (pop i xs) = set xs - {xs ! i}"
  by (auto simp: pop_filter)

subsection \<open>Facts about the matching loop\<close>

lemma loop_induct [case_names empty stop commit]:
  assumes empty: "\<And>rs cs. rs = [] \<or> cs = [] \<Longrightarrow> P rs cs"
    and stop: "\<And>rs cs i j. rs \<noteq> [] \<Longrightarrow> cs \<noteq> [] \<Longrightarrow> pick dm rs cs = (i, j) \<Longrightarrow>
                 \<not> dm ! (rs ! i) ! (cs ! j) < 100 \<Longrightarrow> P rs cs"
    and commit: "\<And>rs cs i j. rs \<noteq> [] \<Longrightarrow> cs \<noteq> [] \<Longrightarrow> pick dm rs cs = (i, j) \<Longrightarrow>
                 dm ! (rs ! i) ! (cs ! j) < 100 \<Longrightarrow> P (pop i rs) (pop j cs) \<Longrightarrow> P rs cs"
  shows "P rs cs"
proof (induction rs arbitrary: cs rule: measure_induct_rule [of length])
  case (less rs)
  show ?case
  proof (cases "rs = [] \<or> cs = []")
    case True
    then show ?thesis by (rule empty)
  next
    case False
    then have ne: "rs \<noteq> []" "cs \<noteq> []" by simp_all
    obtain i j where p: "pick dm rs cs = (i, j)" by (cases "pick dm rs cs")
    show ?thesis
    proof (cases "dm ! (rs ! i) ! (cs ! j) < 100")
      case True
      have "length (pop i rs) < length rs"
        using pick_in_range(1) [OF ne p] by (rule length_pop)
      then have "P (pop i rs) (pop j cs)" by (rule less.IH)
      with ne p True show ?thesis by (rule commit)
    next
      case False
      with ne p show ?thesis by (rule stop)
    qed
  qed
qed

lemma matched_pairs_subset: "set (matched_pairs dm rs cs) \<subseteq> set rs \<times> set cs"
proof (induction rs cs rule: loop_induct [where dm = dm])
  case (empty rs cs)
  then show ?case by (simp add: matched_pairs_empty)
next
  case (stop rs cs i j)
  then show ?case by (simp add: matched_pairs_stop)
next
  case (commit rs cs i j)
  have i: "i < length rs" and j: "j < length cs"
    using pick_in_range [OF commit(1-3)] by simp_all
  have "set (pop i rs) \<subseteq> set rs" "set (pop j cs) \<subseteq> set cs"
    unfolding pop_def using set_take_subset set_drop_subset by fastforce+
  with commit.IH i j show ?case
    by (auto simp: matched_pairs_commit [OF commit(1-4)])
qed

lemma matched_pairs_distinct:
  assumes "distinct rs" "distinct cs"
  shows "distinct (map fst (matched_pairs dm rs cs)) \<and> distinct (map snd (matched_pairs dm rs cs))"
  using assms
proof (induction rs cs rule: loop_induct [where dm = dm])
  case (empty rs cs)
  then show ?case by (simp add: matched_pairs_empty)
next
  case (stop rs cs i j)
  then show ?case by (simp add: matched_pairs_stop)
next
  case (commit rs cs i j)
  have i: "i < length rs" and j: "j < length cs"
    using pick_in_range [OF commit(1-3)] by simp_all
  have sub: "set (matched_pairs dm (pop i rs) (pop j cs)) \<subseteq> set (pop i rs) \<times> set (pop j cs)"
    by (rule matched_pairs_subset)
  have "rs ! i \<notin> set (pop i rs)" "cs ! j \<notin> set (pop j cs)"
    using set_pop [OF commit.prems(1) i] set_pop [OF commit.prems(2) j] by simp_all
  with sub have "rs ! i \<notin> fst ` set (matched_pairs dm (pop i rs) (pop j cs))"
    "cs ! j \<notin> snd ` set (matched_pairs dm (pop i rs) (pop j cs))"
    by auto
  moreover have "distinct (map fst (matched_pairs dm (pop i rs) (pop j cs)))
      \<and> distinct (map snd (matched_pairs dm (pop i rs) (pop j cs)))"
    using commit.IH commit.prems by (simp add: distinct_pop)
  ultimately show ?case
    by (simp add: matched_pairs_commit [OF commit(1-4)])
qed

lemma matched_pairs_below: "(r, c) \<in> set (matched_pairs dm rs cs) \<Longrightarrow> dm ! r ! c < 100"
proof (induction rs cs rule: loop_induct [where dm = dm])
  case (empty rs cs)
  then show ?case by (simp add: matched_pairs_empty)
next
  case (stop rs cs i j)
  then show ?case by (simp add: matched_pairs_stop)
next
  case (commit rs cs i j)
  then show ?case
    by (auto simp: matched_pairs_commit [OF commit(1-4)])
qed

lemma matched_pairs_rest:
  assumes "distinct rs" "distinct cs"
    and "r \<in> set rs" "r \<notin> fst ` set (matched_pairs dm rs cs)"
    and "c \<in> set cs" "c \<notin> snd ` set (matched_pairs dm rs cs)"
  shows "100 \<le> dm ! r ! c"
  using assms
proof (induction rs cs rule: loop_induct [where dm = dm])
  case (empty rs cs)
  then show ?case by auto
next
  case (stop rs cs i j)
  from pick_min [OF stop(1-3) stop.prems(3) stop.prems(5)] stop(4) show ?case by simp
next
  case (commit rs cs i j)
  have i: "i < length rs" and j: "j < length cs"
    using pick_in_range [OF commit(1-3)] by simp_all
  have eq: "matched_pairs dm rs cs = (rs ! i, cs ! j) # matched_pairs dm (pop i rs) (pop j cs)"
    by (rule matched_pairs_commit [OF commit(1-4)])
  from commit.prems(4) eq have r: "r \<noteq> rs ! i" "r \<notin> fst ` set (matched_pairs dm (pop i rs) (pop j cs))"
    by auto
  from commit.prems(6) eq have c: "c \<noteq> cs ! j" "c \<notin> snd ` set (matched_pairs dm (pop i rs) (pop j cs))"
    by auto
  have "r \<in> set (pop i rs)" "c \<in> set (pop j cs)"
    using r(1) c(1) commit.prems(3,5) set_pop [OF commit.prems(1) i] set_pop [OF commit.prems(2) j]
    by simp_all
  with commit.IH commit.prems(1,2) r(2) c(2) show ?case
    by (simp add: distinct_pop)
qed

lemma match_loop_fold:
  assumes "distinct rs" "distinct cs"
  shows "match_loop dm oids ds rs cs s =
     (filter (\<lambda>r. r \<notin> fst ` set (matched_pairs dm rs cs)) rs,
      filter (\<lambda>c. c \<notin> snd ` set (matched_pairs dm rs cs)) cs,
      fold (commit oids ds) (matched_pairs dm rs cs) s)"
  using assms
proof (induction rs cs arbitrary: s rule: loop_induct [where dm = dm])
  case (empty rs cs)
  then show ?case by (auto simp: matched_pairs_empty match_loop_empty)
next
  case (stop rs cs i j)
  then show ?case by (simp add: matched_pairs_stop match_loop_stop)
next
  case (commit rs cs i j)
  have i: "i < length rs" and j: "j < length cs"
    using pick_in_range [OF commit(1-3)] by simp_all
  let ?ps = "matched_pairs dm (pop i rs) (pop j cs)"
  have eq: "matched_pairs dm rs cs = (rs ! i, cs ! j) # ?ps"
    by (rule matched_pairs_commit [OF commit(1-4)])
  have IH: "match_loop dm oids ds (pop i rs) (pop j cs) (commit oids ds (rs ! i, cs ! j) s) =
     (filter (\<lambda>r. r \<notin> fst ` set ?ps) (pop i rs),
      filter (\<lambda>c. c \<notin> snd ` set ?ps) (pop j cs),
      fold (commit oids ds) ?ps (commit oids ds (rs ! i, cs ! j) s))"
    using commit.IH commit.prems by (simp add: distinct_pop)
  have fr: "filter (\<lambda>r. r \<notin> fst ` set ?ps) (pop i rs)
      = filter (\<lambda>r. r \<notin> fst ` set ((rs ! i, cs ! j) # ?ps)) rs"
    by (simp add: pop_filter [OF commit.prems(1) i] conj_commute)
  have fc: "filter (\<lambda>c. c \<notin> snd ` set ?ps) (pop j cs)
      = filter (\<lambda>c. c \<notin> snd ` set ((rs ! i, cs ! j) # ?ps)) cs"
    by (simp add: pop_filter [OF commit.prems(2) j] conj_commute)
  show ?case
    unfolding match_loop_commit [OF commit(1-4)] IH eq fr fc by simp
qed

subsection \<open>Effect of the committed matches\<close>

lemma fold_commit_fields:
  "next_id (fold (commit oids ds) ps s) = next_id s"
  "max_disappeared (fold (commit oids ds) ps s) = max_disappeared s"
  "dict_keys (paths (fold (commit oids ds) ps s)) = dict_keys (paths s)"
  by (induction ps arbitrary: s) (simp_all add: commit_def dict_keys_dict_append)

lemma fold_commit_disappeared_keys:
  "set (dict_keys (disappeared (fold (commit oids ds) ps s)))
     = set (dict_keys (disappeared s)) \<union> (\<lambda>rc. oids ! fst rc) ` set ps"
  by (induction ps arbitrary: s) (auto simp: commit_def dict_keys_dict_set)

lemma fold_commit_disappeared_distinct:
  "distinct (dict_keys (disappeared s)) \<Longrightarrow>
     distinct (dict_keys (disappeared (fold (commit oids ds) ps s)))"
  by (induction ps arbitrary: s) (simp_all add: commit_def distinct_dict_set)

lemma fold_commit_disappeared_get:
  "dict_get (disappeared (fold (commit oids ds) ps s)) k
     = (if k \<in> (\<lambda>rc. oids ! fst rc) ` set ps then Some 0 else dict_get (disappeared s) k)"
  by (induction ps arbitrary: s) (auto simp: commit_def dict_get_dict_set)

lemma commit_paths_get:
  "dict_get (paths (commit oids ds p s)) k
     = (if oids ! fst p = k then map_option (\<lambda>h. h @ [ds ! snd p]) (dict_get (paths s) k)
        else dict_get (paths s) k)"
  by (auto simp: commit_def dict_get_dict_append)

lemma fold_commit_paths_get:
  "dict_get (paths (fold (commit oids ds) ps s)) k
     = map_option (\<lambda>h. h @ map (\<lambda>rc. ds ! snd rc) (filter (\<lambda>rc. oids ! fst rc = k) ps))
         (dict_get (paths s) k)"
proof (induction ps arbitrary: s)
  case Nil
  then show ?case by (simp add: option.map_ident)
next
  case (Cons p ps)
  have "dict_get (paths (fold (commit oids ds) (p # ps) s)) k
      = map_option (\<lambda>h. h @ map (\<lambda>rc. ds ! snd rc) (filter (\<lambda>rc. oids ! fst rc = k) ps))
          (dict_get (paths (commit oids ds p s)) k)"
    using Cons.IH [of "commit oids ds p s"] by simp
  then show ?case
    by (cases "dict_get (paths s) k") (simp_all add: commit_paths_get)
qed

subsection \<open>Effect of seeding\<close>

lemma register_all_fields:
  "next_id (register_all ds s) = next_id s + length ds"
  "max_disappeared (register_all ds s) = max_disappeared s"
  by (induction ds arbitrary: s) (simp_all add: register_def)

lemma register_all_paths_get:
  "dict_get (paths (register_all ds s)) k
     = (if next_id s \<le> k \<and> k < next_id s + length ds then Some [ds ! (k - next_id s)]
        else dict_get (paths s) k)"
proof (induction ds arbitrary: s)
  case Nil
  then show ?case by auto
next
  case (Cons d ds)
  have step: "dict_get (paths (register_all (d # ds) s)) k
      = (if Suc (next_id s) \<le> k \<and> k < Suc (next_id s) + length ds
         then Some [ds ! (k - Suc (next_id s))]
         else if k = next_id s then Some [d] else dict_get (paths s) k)"
    using Cons.IH [of "register d s"] by (simp add: register_def dict_get_dict_set)
  consider "k < next_id s" | "k = next_id s" | "Suc (next_id s) \<le> k" by linarith
  then show ?case
  proof cases
    case 1
    then show ?thesis unfolding step by simp
  next
    case 2
    then show ?thesis unfolding step by simp
  next
    case 3
    then have "(d # ds) ! (k - next_id s) = ds ! (k - Suc (next_id s))"
      by (simp add: Suc_diff_le)
    with 3 show ?thesis unfolding step by auto
  qed
qed

lemma register_all_disappeared_get:
  "dict_get (disappeared (register_all ds s)) k
     = (if next_id s \<le> k \<and> k < next_id s + length ds then Some 0
        else dict_get (disappeared s) k)"
proof (induction ds arbitrary: s)
  case Nil
  then show ?case by auto
next
  case (Cons d ds)
  have step: "dict_get (disappeared (register_all (d # ds) s)) k
      = (if Suc (next_id s) \<le> k \<and> k < Suc (next_id s) + length ds
         then Some 0
         else if k = next_id s then Some 0 else dict_get (disappeared s) k)"
    using Cons.IH [of "register d s"] by (simp add: register_def dict_get_dict_set)
  show ?case unfolding step by auto
qed

lemma register_all_keys:
  "set (dict_keys (paths (register_all ds s)))
     = set (dict_keys (paths s)) \<union> {next_id s ..< next_id s + length ds}"
  "set (dict_keys (disappeared (register_all ds s)))
     = set (dict_keys (disappeared s)) \<union> {next_id s ..< next_id s + length ds}"
  by (induction ds arbitrary: s) (auto simp: register_def dict_keys_dict_set)

lemma register_all_distinct:
  "distinct (dict_keys (paths s)) \<Longrightarrow> distinct (dict_keys (paths (register_all ds s)))"
  "distinct (dict_keys (disappeared s)) \<Longrightarrow> distinct (dict_keys (disappeared (register_all ds s)))"
  by (induction ds arbitrary: s) (simp_all add: register_def distinct_dict_set)

lemma dict_set_fresh: "k \<notin> set (dict_keys d) \<Longrightarrow> dict_set k v d = d @ [(k, v)]"
  by (induction d) (auto simp: dict_keys_def)

lemma register_all_fresh:
  assumes "\<forall>k \<in> set (dict_keys (paths s)). k < next_id s"
    and "\<forall>k \<in> set (dict_keys (disappeared s)). k < next_id s"
  shows "paths (register_all ds s)
           = paths s @ zip [next_id s ..< next_id s + length ds] (map (\<lambda>d. [d]) ds)
       \<and> disappeared (register_all ds s)
           = disappeared s @ map (\<lambda>k. (k, 0)) [next_id s ..< next_id s + length ds]"
  using assms
proof (induction ds arbitrary: s)
  case Nil
  then show ?case by simp
next
  case (Cons d ds)
  have fp: "next_id s \<notin> set (dict_keys (paths s))"
    and fd: "next_id s \<notin> set (dict_keys (disappeared s))"
    using Cons.prems by auto
  have p: "paths (register d s) = paths s @ [(next_id s, [d])]"
    and q: "disappeared (register d s) = disappeared s @ [(next_id s, 0)]"
    and n: "next_id (register d s) = Suc (next_id s)"
    by (simp_all add: register_def dict_set_fresh [OF fp] dict_set_fresh [OF fd])
  have "\<forall>k \<in> set (dict_keys (paths (register d s))). k < next_id (register d s)"
    "\<forall>k \<in> set (dict_keys (disappeared (register d s))). k < next_id (register d s)"
    using Cons.prems by (auto simp: p q n dict_keys_def less_Suc_eq)
  moreover have "[next_id s ..< Suc (next_id s + length ds)]
      = next_id s # [Suc (next_id s) ..< Suc (next_id s + length ds)]"
    by (rule upt_conv_Cons) simp
  ultimately show ?case
    using Cons.IH [of "register d s"] by (simp add: p q n del: upt_Suc)
qed

subsection \<open>Effect of ageing\<close>

lemma disappear_cases:
  assumes "disappear k s = Inr s'"
  obtains (removed) c where "dict_get (disappeared s) k = Some c" "max_disappeared s < c + 1"
      "k \<in> set (dict_keys (paths s))"
      "s' = s\<lparr>paths := dict_del k (paths s),
              disappeared := dict_del k (dict_set k (c + 1) (disappeared s))\<rparr>"
  | (kept) c where "dict_get (disappeared s) k = Some c" "\<not> max_disappeared s < c + 1"
      "s' = s\<lparr>disappeared := dict_set k (c + 1) (disappeared s)\<rparr>"
  using assms
  by (auto simp: disappear_def Let_def split: option.splits if_splits)

lemma disappear_fields:
  assumes "disappear k s = Inr s'"
  shows "next_id s' = next_id s" "max_disappeared s' = max_disappeared s"
  using assms by (auto elim!: disappear_cases)

lemma disappear_get:
  assumes "disappear k s = Inr s'"
  shows "dict_get (disappeared s') k'
           = (if k' = k then aged_counter s k else dict_get (disappeared s) k')"
    and "dict_get (paths s') k'
           = (if k' = k \<and> expires s k then None else dict_get (paths s) k')"
  using assms
  by (erule_tac disappear_cases;
      simp add: aged_counter_def expires_def dict_get_dict_del dict_get_dict_set)+

lemma disappear_total:
  assumes "k \<in> set (dict_keys (disappeared s))" "k \<in> set (dict_keys (paths s))"
  shows "\<exists>s'. disappear k s = Inr s'"
proof -
  from assms(1) obtain c where "dict_get (disappeared s) k = Some c"
    using dict_get_None_iff [of "disappeared s" k] by (cases "dict_get (disappeared s) k") auto
  with assms(2) show ?thesis by (simp add: disappear_def Let_def)
qed

lemma disappear_keys:
  assumes "disappear k s = Inr s'"
  shows "set (dict_keys (paths s')) = set (dict_keys (paths s)) - (if expires s k then {k} else {})"
    and "set (dict_keys (disappeared s')) = set (dict_keys (disappeared s)) - (if expires s k then {k} else {})"
proof -
  have k: "k \<in> set (dict_keys (disappeared s))"
    using assms dict_get_None_iff [of "disappeared s" k] by (auto elim!: disappear_cases)
  show "set (dict_keys (paths s')) = set (dict_keys (paths s)) - (if expires s k then {k} else {})"
    using assms by (auto elim!: disappear_cases simp: expires_def dict_keys_dict_del)
  show "set (dict_keys (disappeared s')) = set (dict_keys (disappeared s)) - (if expires s k then {k} else {})"
    using assms k
    by (auto elim!: disappear_cases simp: expires_def dict_keys_dict_del dict_keys_dict_set)
qed

lemma disappear_distinct:
  assumes "disappear k s = Inr s'"
  shows "distinct (dict_keys (paths s)) \<Longrightarrow> distinct (dict_keys (paths s'))"
    and "distinct (dict_keys (disappeared s)) \<Longrightarrow> distinct (dict_keys (disappeared s'))"
  using assms
  by (auto elim!: disappear_cases simp: distinct_dict_del distinct_dict_set)

lemma disappear_all_fields:
  "disappear_all ks s = Inr s' \<Longrightarrow> next_id s' = next_id s \<and> max_disappeared s' = max_disappeared s"
proof (induction ks arbitrary: s)
  case Nil
  then show ?case by simp
next
  case (Cons k ks)
  from Cons.prems obtain s1 where 1: "disappear k s = Inr s1" and 2: "disappear_all ks s1 = Inr s'"
    by (auto split: sum.splits)
  from Cons.IH [OF 2] disappear_fields [OF 1] show ?case by simp
qed

lemma disappear_all_get:
  assumes "distinct ks" "disappear_all ks s = Inr s'"
  shows "dict_get (disappeared s') k
           = (if k \<in> set ks then aged_counter s k else dict_get (disappeared s) k)
       \<and> dict_get (paths s') k
           = (if k \<in> set ks \<and> expires s k then None else dict_get (paths s) k)"
  using assms
proof (induction ks arbitrary: s)
  case Nil
  then show ?case by simp
next
  case (Cons k0 ks)
  from Cons.prems obtain s1 where 1: "disappear k0 s = Inr s1" and 2: "disappear_all ks s1 = Inr s'"
    by (auto split: sum.splits)
  from Cons.prems have d: "distinct ks" and n: "k0 \<notin> set ks" by simp_all
  note IH = Cons.IH [OF d 2]
  note g = disappear_get [OF 1]
  note f = disappear_fields [OF 1]
  show ?case
  proof (cases "k \<in> set ks")
    case True
    with n have ne: "k \<noteq> k0" by auto
    have "aged_counter s1 k = aged_counter s k" "expires s1 k = expires s k"
      using ne g(1) [of k] f by (simp_all add: aged_counter_def expires_def split: option.splits)
    with IH True ne g show ?thesis by simp
  next
    case False
    with IH g show ?thesis by auto
  qed
qed

lemma disappear_all_keys:
  assumes "disappear_all ks s = Inr s'" "set (dict_keys (paths s)) = set (dict_keys (disappeared s))"
  shows "set (dict_keys (paths s')) = set (dict_keys (disappeared s'))"
  using assms
proof (induction ks arbitrary: s)
  case Nil
  then show ?case by simp
next
  case (Cons k ks)
  from Cons.prems obtain s1 where 1: "disappear k s = Inr s1" and 2: "disappear_all ks s1 = Inr s'"
    by (auto split: sum.splits)
  have "set (dict_keys (paths s1)) = set (dict_keys (disappeared s1))"
    using disappear_keys [OF 1] Cons.prems(2) by simp
  from Cons.IH [OF 2 this] show ?case .
qed

lemma disappear_all_distinct:
  assumes "disappear_all ks s = Inr s'"
  shows "distinct (dict_keys (paths s)) \<Longrightarrow> distinct (dict_keys (paths s'))"
    and "distinct (dict_keys (disappeared s)) \<Longrightarrow> distinct (dict_keys (disappeared s'))"
  using assms
proof (induction ks arbitrary: s)
  case Nil
  { case 1 then show ?case by simp }
  { case 2 then show ?case by simp }
next
  case (Cons k ks)
  { case 1
    from 1(2) obtain s1 where a: "disappear k s = Inr s1" and b: "disappear_all ks s1 = Inr s'"
      by (auto split: sum.splits)
    from Cons.IH(1) [OF disappear_distinct(1) [OF a 1(1)] b] show ?case . }
  { case 2
    from 2(2) obtain s1 where a: "disappear k s = Inr s1" and b: "disappear_all ks s1 = Inr s'"
      by (auto split: sum.splits)
    from Cons.IH(2) [OF disappear_distinct(2) [OF a 2(1)] b] show ?case . }
qed

lemma disappear_all_total:
  assumes "distinct ks" "set ks \<subseteq> set (dict_keys (disappeared s))"
    "set ks \<subseteq> set (dict_keys (paths s))"
  shows "\<exists>s'. disappear_all ks s = Inr s'"
  using assms
proof (induction ks arbitrary: s)
  case Nil
  then show ?case by simp
next
  case (Cons k ks)
  from Cons.prems obtain s1 where 1: "disappear k s = Inr s1"
    using disappear_total [of k s] by auto
  have "set ks \<subseteq> set (dict_keys (disappeared s1))" "set ks \<subseteq> set (dict_keys (paths s1))"
    using disappear_keys [OF 1] Cons.prems by auto
  with Cons.IH [of s1] Cons.prems(1) obtain s' where "disappear_all ks s1 = Inr s'" by auto
  with 1 show ?case by simp
qed

subsection \<open>The branches of \<^verbatim>\<open>update\<close>\<close>

lemma update_empty: "update s [] = disappear_all (dict_keys (disappeared s)) s"
  by (simp add: update_def)

lemma update_cold: "ds \<noteq> [] \<Longrightarrow> paths s = [] \<Longrightarrow> update s ds = Inr (register_all ds s)"
  by (simp add: update_def)

lemma update_general:
  assumes "ds \<noteq> []" "paths s \<noteq> []" "[] \<notin> set (map snd (paths s))" "shapes_ok s ds"
  shows "update s ds =
     disappear_all (map (\<lambda>row. dict_keys (paths s) ! row) (unmatched_rows s ds))
       (register_all (map (\<lambda>col. ds ! col) (unmatched_cols s ds))
          (fold (commit (dict_keys (paths s)) ds) (frame_matches s ds) s))"
proof -
  let ?prevs = "map (\<lambda>p. last (snd p)) (paths s)"
  have pc: "previous_centroids (paths s) = Inr ?prevs"
    using assms(3) by (simp add: previous_centroids_def)
  have dm: "distance_matrix ?prevs ds = Inr (frame_distances s ds)"
    using assms(4) by (auto simp: distance_matrix_def shapes_ok_def frame_distances_def)
  have pos: "0 < length (paths s) * length ds"
    using assms(1,2) by simp
  have ml: "match_loop (frame_distances s ds) (dict_keys (paths s)) ds
              [0..<length (paths s)] [0..<length ds] s
            = (unmatched_rows s ds, unmatched_cols s ds,
               fold (commit (dict_keys (paths s)) ds) (frame_matches s ds) s)"
    by (simp add: match_loop_fold unmatched_rows_def unmatched_cols_def frame_matches_def)
  show ?thesis
    using assms(1,2) pos by (simp add: update_def pc dm ml Let_def)
qed

lemma update_general_errors:
  assumes "ds \<noteq> []" "paths s \<noteq> []"
  shows "[] \<in> set (map snd (paths s)) \<Longrightarrow> update s ds = Inl IndexError"
    and "[] \<notin> set (map snd (paths s)) \<Longrightarrow> \<not> shapes_ok s ds \<Longrightarrow> update s ds = Inl ValueError"
proof -
  show "[] \<in> set (map snd (paths s)) \<Longrightarrow> update s ds = Inl IndexError"
    using assms by (simp add: update_def previous_centroids_def)
next
  assume a: "[] \<notin> set (map snd (paths s))" and b: "\<not> shapes_ok s ds"
  let ?prevs = "map (\<lambda>p. last (snd p)) (paths s)"
  have pc: "previous_centroids (paths s) = Inr ?prevs"
    using a by (simp add: previous_centroids_def)
  have dm: "distance_matrix ?prevs ds = Inl ValueError"
    using b by (auto simp: distance_matrix_def shapes_ok_def)
  show "update s ds = Inl ValueError"
    using assms by (simp add: update_def pc dm)
qed

lemma frame_matches_range:
  "set (frame_matches s ds) \<subseteq> {0..<length (paths s)} \<times> {0..<length ds}"
  using matched_pairs_subset [of "frame_distances s ds" "[0..<length (paths s)]" "[0..<length ds]"]
  by (simp add: frame_matches_def)

lemma frame_matches_distinct:
  "distinct (map fst (frame_matches s ds))" "distinct (map snd (frame_matches s ds))"
  using matched_pairs_distinct [of "[0..<length (paths s)]" "[0..<length ds]" "frame_distances s ds"]
  by (simp_all add: frame_matches_def)

lemma unmatched_rows_props:
  "distinct (unmatched_rows s ds)" "set (unmatched_rows s ds) \<subseteq> {0..<length (paths s)}"
  by (auto simp: unmatched_rows_def)

lemma unmatched_cols_props:
  "distinct (unmatched_cols s ds)" "set (unmatched_cols s ds) \<subseteq> {0..<length ds}"
  by (auto simp: unmatched_cols_def)

subsection \<open>The invariant by lookups\<close>

lemma dict_get_Some_iff:
  "distinct (dict_keys d) \<Longrightarrow> dict_get d k = Some v \<longleftrightarrow> (k, v) \<in> set d"
  by (simp add: dict_get_def dict_keys_def)

lemma dict_get_SomeD: "dict_get d k = Some v \<Longrightarrow> (k, v) \<in> set d"
  by (simp add: dict_get_def map_of_SomeD)

lemma dict_get_Some_key: "dict_get d k = Some v \<Longrightarrow> k \<in> set (dict_keys d)"
  using dict_get_None_iff [of d k] by auto

lemma dict_key_get: "k \<in> set (dict_keys d) \<Longrightarrow> \<exists>v. dict_get d k = Some v"
  using dict_get_None_iff [of d k] by (cases "dict_get d k") auto

lemma tracker_inv_get:
  "tracker_inv s \<longleftrightarrow>
     distinct (dict_keys (paths s)) \<and> distinct (dict_keys (disappeared s)) \<and>
     (\<forall>k. dict_get (paths s) k = None \<longleftrightarrow> dict_get (disappeared s) k = None) \<and>
     (\<forall>k h. dict_get (paths s) k = Some h \<longrightarrow> k < next_id s \<and> h \<noteq> []) \<and>
     (\<forall>k c. dict_get (disappeared s) k = Some c \<longrightarrow> c \<le> max_disappeared s)"
  (is "?L \<longleftrightarrow> ?R")
proof
  assume L: ?L
  then have dp: "distinct (dict_keys (paths s))" and dd: "distinct (dict_keys (disappeared s))"
    and ks: "set (dict_keys (paths s)) = set (dict_keys (disappeared s))"
    and lt: "\<forall>k \<in> set (dict_keys (paths s)). k < next_id s"
    and ne: "[] \<notin> set (map snd (paths s))"
    and le: "\<forall>c \<in> set (map snd (disappeared s)). c \<le> max_disappeared s"
    by (simp_all add: tracker_inv_def)
  have "\<forall>k. dict_get (paths s) k = None \<longleftrightarrow> dict_get (disappeared s) k = None"
    using ks by (simp add: dict_get_None_iff)
  moreover have "\<forall>k h. dict_get (paths s) k = Some h \<longrightarrow> k < next_id s \<and> h \<noteq> []"
  proof (intro allI impI)
    fix k h assume g: "dict_get (paths s) k = Some h"
    from dict_get_Some_key [OF g] lt have "k < next_id s" by simp
    moreover from dict_get_SomeD [OF g] ne have "h \<noteq> []" by force
    ultimately show "k < next_id s \<and> h \<noteq> []" ..
  qed
  moreover have "\<forall>k c. dict_get (disappeared s) k = Some c \<longrightarrow> c \<le> max_disappeared s"
  proof (intro allI impI)
    fix k c assume g: "dict_get (disappeared s) k = Some c"
    from dict_get_SomeD [OF g] le show "c \<le> max_disappeared s" by force
  qed
  ultimately show ?R using dp dd by simp
next
  assume R: ?R
  then have dp: "distinct (dict_keys (paths s))" and dd: "distinct (dict_keys (disappeared s))"
    and ks: "\<forall>k. dict_get (paths s) k = None \<longleftrightarrow> dict_get (disappeared s) k = None"
    and pr: "\<forall>k h. dict_get (paths s) k = Some h \<longrightarrow> k < next_id s \<and> h \<noteq> []"
    and le: "\<forall>k c. dict_get (disappeared s) k = Some c \<longrightarrow> c \<le> max_disappeared s"
    by simp_all
  have "set (dict_keys (paths s)) = set (dict_keys (disappeared s))"
    using ks by (auto simp: dict_get_None_iff)
  moreover have "\<forall>k \<in> set (dict_keys (paths s)). k < next_id s"
    using pr dict_key_get [of _ "paths s"] by blast
  moreover have "[] \<notin> set (map snd (paths s))"
  proof
    assume "[] \<in> set (map snd (paths s))"
    then obtain k where "(k, []) \<in> set (paths s)" by auto
    then have "dict_get (paths s) k = Some []" using dp by (simp add: dict_get_Some_iff)
    with pr show False by blast
  qed
  moreover have "\<forall>c \<in> set (map snd (disappeared s)). c \<le> max_disappeared s"
  proof
    fix c assume "c \<in> set (map snd (disappeared s))"
    then obtain k where "(k, c) \<in> set (disappeared s)" by auto
    then have "dict_get (disappeared s) k = Some c" using dd by (simp add: dict_get_Some_iff)
    with le show "c \<le> max_disappeared s" by blast
  qed
  ultimately show ?L using dp dd by (simp add: tracker_inv_def)
qed

lemma tracker_inv_init: "tracker_inv PathTracker_init"
  by (simp add: tracker_inv_def PathTracker_init_def dict_keys_def)

subsection \<open>The invariant is kept\<close>

lemma tracker_inv_commit:
  assumes "tracker_inv s" "fst ` set ps \<subseteq> {0..<length (paths s)}"
  shows "tracker_inv (fold (commit (dict_keys (paths s)) ds) ps s)"
proof -
  let ?oids = "dict_keys (paths s)"
  let ?s1 = "fold (commit ?oids ds) ps s"
  note inv = assms(1) [unfolded tracker_inv_get]
  have img: "k \<in> (\<lambda>rc. ?oids ! fst rc) ` set ps \<Longrightarrow> k \<in> set ?oids" for k
  proof -
    assume "k \<in> (\<lambda>rc. ?oids ! fst rc) ` set ps"
    then obtain rc where rc: "rc \<in> set ps" "k = ?oids ! fst rc" by auto
    with assms(2) have "fst rc < length ?oids" by (auto simp: dict_keys_def)
    with rc(2) show "k \<in> set ?oids" by simp
  qed
  have img2: "k \<in> (\<lambda>rc. ?oids ! fst rc) ` set ps \<Longrightarrow> dict_get (disappeared s) k \<noteq> None" for k
    using img [of k] inv by (simp add: dict_get_None_iff)
  show ?thesis
    unfolding tracker_inv_get
  proof (intro conjI allI impI)
    show "distinct (dict_keys (paths ?s1))" using inv by (simp add: fold_commit_fields)
    show "distinct (dict_keys (disappeared ?s1))"
      using inv by (simp add: fold_commit_disappeared_distinct)
  next
    fix k
    show "dict_get (paths ?s1) k = None \<longleftrightarrow> dict_get (disappeared ?s1) k = None"
      using inv img2 [of k]
      by (auto simp: fold_commit_paths_get fold_commit_disappeared_get)
  next
    fix k h assume "dict_get (paths ?s1) k = Some h"
    then obtain h0 where "dict_get (paths s) k = Some h0" "\<exists>e. h = h0 @ e"
      by (auto simp: fold_commit_paths_get)
    with inv show "k < next_id ?s1" "h \<noteq> []"
      by (auto simp: fold_commit_fields)
  next
    fix k c assume "dict_get (disappeared ?s1) k = Some c"
    then have "c = 0 \<or> dict_get (disappeared s) k = Some c"
      by (auto simp: fold_commit_disappeared_get split: if_splits)
    with inv show "c \<le> max_disappeared ?s1"
      by (auto simp: fold_commit_fields)
  qed
qed

lemma tracker_inv_register_all:
  assumes "tracker_inv s"
  shows "tracker_inv (register_all ds s)"
proof -
  note inv = assms [unfolded tracker_inv_get]
  show ?thesis
    unfolding tracker_inv_get
  proof (intro conjI allI impI)
    show "distinct (dict_keys (paths (register_all ds s)))"
      using inv by (simp add: register_all_distinct)
    show "distinct (dict_keys (disappeared (register_all ds s)))"
      using inv by (simp add: register_all_distinct)
  next
    fix k
    show "dict_get (paths (register_all ds s)) k = None
        \<longleftrightarrow> dict_get (disappeared (register_all ds s)) k = None"
      using inv by (simp add: register_all_paths_get register_all_disappeared_get)
  next
    fix k h assume "dict_get (paths (register_all ds s)) k = Some h"
    then have "(k < next_id s + length ds \<and> h \<noteq> []) \<or> dict_get (paths s) k = Some h"
      by (auto simp: register_all_paths_get split: if_splits)
    moreover have "dict_get (paths s) k = Some h \<Longrightarrow> k < next_id s \<and> h \<noteq> []"
      using inv by blast
    ultimately show "k < next_id (register_all ds s)" "h \<noteq> []"
      by (auto simp: register_all_fields)
  next
    fix k c assume "dict_get (disappeared (register_all ds s)) k = Some c"
    then have "c = 0 \<or> dict_get (disappeared s) k = Some c"
      by (auto simp: register_all_disappeared_get split: if_splits)
    with inv show "c \<le> max_disappeared (register_all ds s)"
      by (auto simp: register_all_fields)
  qed
qed

lemma aged_counter_None: "aged_counter s k = None \<longleftrightarrow> dict_get (disappeared s) k = None \<or> expires s k"
  by (simp add: aged_counter_def expires_def split: option.splits)

lemma aged_counter_le: "aged_counter s k = Some c \<Longrightarrow> c \<le> max_disappeared s"
  by (auto simp: aged_counter_def split: option.splits if_splits)

lemma tracker_inv_disappear_all:
  assumes "tracker_inv s" "distinct ks" "disappear_all ks s = Inr s'"
  shows "tracker_inv s'"
proof -
  note inv = assms(1) [unfolded tracker_inv_get]
  note get = disappear_all_get [OF assms(2,3)]
  note fields = disappear_all_fields [OF assms(3)]
  show ?thesis
    unfolding tracker_inv_get
  proof (intro conjI allI impI)
    show "distinct (dict_keys (paths s'))"
      using inv disappear_all_distinct(1) [OF assms(3)] by simp
    show "distinct (dict_keys (disappeared s'))"
      using inv disappear_all_distinct(2) [OF assms(3)] by simp
  next
    fix k
    show "dict_get (paths s') k = None \<longleftrightarrow> dict_get (disappeared s') k = None"
      using inv get [of k] by (auto simp: aged_counter_None)
  next
    fix k h assume "dict_get (paths s') k = Some h"
    then have "dict_get (paths s) k = Some h"
      using get [of k] by (auto split: if_splits)
    with inv show "k < next_id s'" "h \<noteq> []"
      using fields by auto
  next
    fix k c assume "dict_get (disappeared s') k = Some c"
    then have "aged_counter s k = Some c \<or> dict_get (disappeared s) k = Some c"
      using get [of k] by (auto split: if_splits)
    with inv show "c \<le> max_disappeared s'"
      using fields aged_counter_le [of s k c] by auto
  qed
qed

lemma nth_keys_distinct:
  assumes "distinct ks" "distinct rs" "set rs \<subseteq> {0..<length ks}"
  shows "distinct (map (\<lambda>r. ks ! r) rs)"
proof -
  have "inj_on (\<lambda>r. ks ! r) (set rs)"
  proof (rule inj_onI)
    fix x y assume "x \<in> set rs" "y \<in> set rs" "ks ! x = ks ! y"
    with assms(3) have "x < length ks" "y < length ks" by auto
    with assms(1) \<open>ks ! x = ks ! y\<close> show "x = y" by (simp add: nth_eq_iff_index_eq)
  qed
  with assms(2) show ?thesis by (simp add: distinct_map)
qed

lemma tracker_inv_update:
  assumes "tracker_inv s" "update s ds = Inr s'"
  shows "tracker_inv s'"
proof (cases "ds = []")
  case True
  with assms(2) have "disappear_all (dict_keys (disappeared s)) s = Inr s'"
    by (simp add: update_empty)
  moreover have "distinct (dict_keys (disappeared s))"
    using assms(1) by (simp add: tracker_inv_def)
  ultimately show ?thesis using assms(1) tracker_inv_disappear_all by blast
next
  case ds: False
  show ?thesis
  proof (cases "paths s = []")
    case True
    with ds assms(2) have "s' = register_all ds s" by (simp add: update_cold)
    with assms(1) show ?thesis by (simp add: tracker_inv_register_all)
  next
    case False
    let ?oids = "dict_keys (paths s)"
    let ?s1 = "fold (commit ?oids ds) (frame_matches s ds) s"
    let ?s2 = "register_all (map (\<lambda>col. ds ! col) (unmatched_cols s ds)) ?s1"
    have ne: "[] \<notin> set (map snd (paths s))"
      using assms(1) by (simp add: tracker_inv_def)
    have ok: "shapes_ok s ds"
      using update_general_errors(2) [OF ds False ne] assms(2) by auto
    have eq: "disappear_all (map (\<lambda>row. ?oids ! row) (unmatched_rows s ds)) ?s2 = Inr s'"
      using update_general [OF ds False ne ok] assms(2) by simp
    have "fst ` set (frame_matches s ds) \<subseteq> {0..<length (paths s)}"
      using frame_matches_range [of s ds] by auto
    with assms(1) have "tracker_inv ?s1" by (rule tracker_inv_commit)
    then have 2: "tracker_inv ?s2" by (rule tracker_inv_register_all)
    have "distinct (map (\<lambda>row. ?oids ! row) (unmatched_rows s ds))"
      using assms(1) unmatched_rows_props [of s ds]
      by (intro nth_keys_distinct) (simp_all add: tracker_inv_def dict_keys_def)
    with 2 eq show ?thesis using tracker_inv_disappear_all by blast
  qed
qed

lemma tracker_inv_updates:
  assumes "tracker_inv s" "updates s frames = Inr s'"
  shows "tracker_inv s'"
  using assms
proof (induction frames arbitrary: s)
  case Nil
  then show ?case by simp
next
  case (Cons ds frames)
  from Cons.prems(2) obtain s1 where 1: "update s ds = Inr s1" and 2: "updates s1 frames = Inr s'"
    by (auto split: sum.splits)
  from Cons.IH [OF tracker_inv_update [OF Cons.prems(1) 1] 2] show ?case .
qed

subsection \<open>What the committed matches do to each track\<close>

lemma filter_key_matched:
  assumes "distinct oids" "distinct (map fst ps)" "fst ` set ps \<subseteq> {0..<length oids}"
    and "(r, c) \<in> set ps"
  shows "filter (\<lambda>rc. oids ! fst rc = oids ! r) ps = [(r, c)]"
proof -
  have r: "r < length oids" using assms(3,4) by force
  have eq: "filter (\<lambda>rc. oids ! fst rc = oids ! r) ps = filter (\<lambda>rc. fst rc = r) ps"
  proof (rule filter_cong [OF refl])
    fix rc assume "rc \<in> set ps"
    with assms(3) have "fst rc < length oids" by force
    with r assms(1) show "(oids ! fst rc = oids ! r) = (fst rc = r)"
      by (simp add: nth_eq_iff_index_eq)
  qed
  have "filter (\<lambda>rc. fst rc = r) ps = [(r, c)]"
    using assms(2,4)
  proof (induction ps)
    case Nil
    then show ?case by simp
  next
    case (Cons p ps)
    show ?case
    proof (cases "p = (r, c)")
      case True
      with Cons.prems(1) have "r \<notin> fst ` set ps" by auto
      then have "filter (\<lambda>rc. fst rc = r) ps = []"
        by (auto simp: filter_empty_conv)
      with True show ?thesis by simp
    next
      case False
      with Cons.prems have in_ps: "(r, c) \<in> set ps" by simp
      then have "r \<in> fst ` set ps" by force
      with Cons.prems(1) have "fst p \<noteq> r" by auto
      with Cons.IH in_ps Cons.prems(1) show ?thesis by simp
    qed
  qed
  with eq show ?thesis by simp
qed

lemma filter_key_unmatched:
  assumes "distinct oids" "fst ` set ps \<subseteq> {0..<length oids}" "r < length oids"
    and "r \<notin> fst ` set ps"
  shows "filter (\<lambda>rc. oids ! fst rc = oids ! r) ps = []"
    and "oids ! r \<notin> (\<lambda>rc. oids ! fst rc) ` set ps"
proof -
  have ne: "rc \<in> set ps \<Longrightarrow> oids ! fst rc \<noteq> oids ! r" for rc
  proof -
    assume a: "rc \<in> set ps"
    with assms(2) have "fst rc < length oids" by force
    moreover from a assms(4) have "fst rc \<noteq> r" by auto
    ultimately show ?thesis using assms(1,3) by (simp add: nth_eq_iff_index_eq)
  qed
  then show "filter (\<lambda>rc. oids ! fst rc = oids ! r) ps = []"
    by (auto simp: filter_empty_conv)
  show "oids ! r \<notin> (\<lambda>rc. oids ! fst rc) ` set ps"
  proof
    assume "oids ! r \<in> (\<lambda>rc. oids ! fst rc) ` set ps"
    then obtain rc where "rc \<in> set ps" "oids ! fst rc = oids ! r" by force
    with ne [of rc] show False by simp
  qed
qed

lemma committed_matched:
  assumes "distinct oids" "distinct (map fst ps)" "fst ` set ps \<subseteq> {0..<length oids}"
    and "(r, c) \<in> set ps"
  shows "dict_get (paths (fold (commit oids ds) ps s)) (oids ! r)
           = map_option (\<lambda>h. h @ [ds ! c]) (dict_get (paths s) (oids ! r))"
    and "dict_get (disappeared (fold (commit oids ds) ps s)) (oids ! r) = Some 0"
proof -
  show "dict_get (paths (fold (commit oids ds) ps s)) (oids ! r)
           = map_option (\<lambda>h. h @ [ds ! c]) (dict_get (paths s) (oids ! r))"
    by (simp add: fold_commit_paths_get filter_key_matched [OF assms])
  have "oids ! r \<in> (\<lambda>rc. oids ! fst rc) ` set ps"
    using assms(4) by force
  then show "dict_get (disappeared (fold (commit oids ds) ps s)) (oids ! r) = Some 0"
    by (simp add: fold_commit_disappeared_get)
qed

lemma committed_unmatched:
  assumes "distinct oids" "fst ` set ps \<subseteq> {0..<length oids}" "r < length oids"
    and "r \<notin> fst ` set ps"
  shows "dict_get (paths (fold (commit oids ds) ps s)) (oids ! r) = dict_get (paths s) (oids ! r)"
    and "dict_get (disappeared (fold (commit oids ds) ps s)) (oids ! r)
           = dict_get (disappeared s) (oids ! r)"
  using filter_key_unmatched [OF assms]
  by (simp_all add: fold_commit_paths_get fold_commit_disappeared_get option.map_ident)

lemma aged_counter_cong:
  "dict_get (disappeared s2) k = dict_get (disappeared s) k \<Longrightarrow>
     max_disappeared s2 = max_disappeared s \<Longrightarrow>
     aged_counter s2 k = aged_counter s k \<and> expires s2 k = expires s k"
  by (simp add: aged_counter_def expires_def split: option.splits)

subsection \<open>What one update does to each track\<close>

lemma frame_matches_trivial: "ds = [] \<or> paths s = [] \<Longrightarrow> frame_matches s ds = []"
  by (auto simp: frame_matches_def matched_pairs_empty)

lemma update_phases:
  assumes "tracker_inv s" "update s ds = Inr s'"
  obtains lost where "distinct lost"
    and "set lost = (\<lambda>row. dict_keys (paths s) ! row) ` set (unmatched_rows s ds)"
    and "disappear_all lost
           (register_all (map (\<lambda>col. ds ! col) (unmatched_cols s ds))
              (fold (commit (dict_keys (paths s)) ds) (frame_matches s ds) s)) = Inr s'"
proof (cases "ds = []")
  case True
  have d: "distinct (dict_keys (disappeared s))"
    and ks: "set (dict_keys (paths s)) = set (dict_keys (disappeared s))"
    using assms(1) by (simp_all add: tracker_inv_def)
  have "set (unmatched_rows s ds) = {0..<length (dict_keys (paths s))}"
    using True by (simp add: unmatched_rows_def frame_matches_trivial dict_keys_def)
  then have "(\<lambda>row. dict_keys (paths s) ! row) ` set (unmatched_rows s ds) = set (dict_keys (paths s))"
    using nth_image [of "length (dict_keys (paths s))" "dict_keys (paths s)"] by simp
  with ks have "set (dict_keys (disappeared s))
      = (\<lambda>row. dict_keys (paths s) ! row) ` set (unmatched_rows s ds)" by simp
  moreover have "disappear_all (dict_keys (disappeared s))
           (register_all (map (\<lambda>col. ds ! col) (unmatched_cols s ds))
              (fold (commit (dict_keys (paths s)) ds) (frame_matches s ds) s)) = Inr s'"
    using True assms(2)
    by (simp add: update_empty frame_matches_trivial unmatched_cols_def)
  ultimately show ?thesis using d that by blast
next
  case ds: False
  show ?thesis
  proof (cases "paths s = []")
    case True
    have "unmatched_cols s ds = [0..<length ds]" "unmatched_rows s ds = []"
      using True by (simp_all add: unmatched_cols_def unmatched_rows_def frame_matches_trivial)
    moreover have "map (\<lambda>col. ds ! col) [0..<length ds] = ds" by (rule map_nth)
    ultimately have "disappear_all []
           (register_all (map (\<lambda>col. ds ! col) (unmatched_cols s ds))
              (fold (commit (dict_keys (paths s)) ds) (frame_matches s ds) s)) = Inr s'"
      using True ds assms(2) by (simp add: update_cold frame_matches_trivial)
    moreover have "set [] = (\<lambda>row. dict_keys (paths s) ! row) ` set (unmatched_rows s ds)"
      using \<open>unmatched_rows s ds = []\<close> by simp
    ultimately show ?thesis using that [of "[]"] by simp
  next
    case False
    have ne: "[] \<notin> set (map snd (paths s))"
      using assms(1) by (simp add: tracker_inv_def)
    have ok: "shapes_ok s ds"
      using update_general_errors(2) [OF ds False ne] assms(2) by auto
    let ?lost = "map (\<lambda>row. dict_keys (paths s) ! row) (unmatched_rows s ds)"
    have "disappear_all ?lost
           (register_all (map (\<lambda>col. ds ! col) (unmatched_cols s ds))
              (fold (commit (dict_keys (paths s)) ds) (frame_matches s ds) s)) = Inr s'"
      using update_general [OF ds False ne ok] assms(2) by simp
    moreover have "distinct ?lost"
      using assms(1) unmatched_rows_props [of s ds]
      by (intro nth_keys_distinct) (simp_all add: tracker_inv_def dict_keys_def)
    ultimately show ?thesis using that [of ?lost] by simp
  qed
qed

lemma update_fields:
  assumes "tracker_inv s" "update s ds = Inr s'"
  shows "next_id s' = next_id s + length (unmatched_cols s ds)"
    and "max_disappeared s' = max_disappeared s"
proof -
  from update_phases [OF assms] obtain lost where
    "disappear_all lost
       (register_all (map (\<lambda>col. ds ! col) (unmatched_cols s ds))
          (fold (commit (dict_keys (paths s)) ds) (frame_matches s ds) s)) = Inr s'"
    by blast
  from disappear_all_fields [OF this]
  show "next_id s' = next_id s + length (unmatched_cols s ds)"
    and "max_disappeared s' = max_disappeared s"
    by (simp_all add: register_all_fields fold_commit_fields)
qed

lemma dict_get_nth:
  assumes "distinct (dict_keys d)" "r < length d"
  shows "dict_get d (dict_keys d ! r) = Some (snd (d ! r))"
proof -
  have "(dict_keys d ! r, snd (d ! r)) \<in> set d"
    using assms(2) by (simp add: dict_keys_def)
  with assms(1) show ?thesis by (simp add: dict_get_Some_iff)
qed

lemma update_old:
  assumes "tracker_inv s" "update s ds = Inr s'" "r < length (paths s)"
  shows "(r, c) \<in> set (frame_matches s ds) \<Longrightarrow>
           dict_get (paths s') (dict_keys (paths s) ! r) = Some (snd (paths s ! r) @ [ds ! c])
         \<and> dict_get (disappeared s') (dict_keys (paths s) ! r) = Some 0"
    and "r \<notin> fst ` set (frame_matches s ds) \<Longrightarrow>
           dict_get (disappeared s') (dict_keys (paths s) ! r)
             = aged_counter s (dict_keys (paths s) ! r)
         \<and> dict_get (paths s') (dict_keys (paths s) ! r)
             = (if expires s (dict_keys (paths s) ! r) then None
                else Some (snd (paths s ! r)))"
proof -
  let ?oids = "dict_keys (paths s)"
  let ?ps = "frame_matches s ds"
  let ?s1 = "fold (commit ?oids ds) ?ps s"
  let ?s2 = "register_all (map (\<lambda>col. ds ! col) (unmatched_cols s ds)) ?s1"
  let ?k = "?oids ! r"
  from update_phases [OF assms(1,2)] obtain lost where dl: "distinct lost"
    and sl: "set lost = (\<lambda>row. ?oids ! row) ` set (unmatched_rows s ds)"
    and eq: "disappear_all lost ?s2 = Inr s'" by blast
  note get = disappear_all_get [OF dl eq, of ?k]
  have d: "distinct ?oids" using assms(1) by (simp add: tracker_inv_def)
  have len: "length ?oids = length (paths s)" by (simp add: dict_keys_def)
  have rng: "fst ` set ?ps \<subseteq> {0..<length ?oids}"
    using frame_matches_range [of s ds] len by auto
  have r: "r < length ?oids" using assms(3) len by simp
  have pk: "dict_get (paths s) ?k = Some (snd (paths s ! r))"
    using d assms(3) by (rule dict_get_nth)
  have "?k \<in> set ?oids" using r by simp
  then have lt: "?k < next_id s" using assms(1) by (simp add: tracker_inv_def)
  have p2: "dict_get (paths ?s2) ?k = dict_get (paths ?s1) ?k"
    and d2: "dict_get (disappeared ?s2) ?k = dict_get (disappeared ?s1) ?k"
    using lt by (simp_all add: register_all_paths_get register_all_disappeared_get fold_commit_fields)
  have m2: "max_disappeared ?s2 = max_disappeared s"
    by (simp add: register_all_fields fold_commit_fields)
  {
    assume m: "(r, c) \<in> set ?ps"
    have "?k \<notin> set lost"
    proof
      assume "?k \<in> set lost"
      with sl obtain r' where r': "r' \<in> set (unmatched_rows s ds)" "?oids ! r' = ?k" by auto
      then have "r' < length ?oids" using unmatched_rows_props(2) [of s ds] len by auto
      with r'(2) r d have "r' = r" by (simp add: nth_eq_iff_index_eq)
      with r'(1) m show False by (force simp: unmatched_rows_def)
    qed
    with get p2 d2 pk committed_matched [OF d frame_matches_distinct(1) rng m, of ds s]
    show "dict_get (paths s') ?k = Some (snd (paths s ! r) @ [ds ! c])
         \<and> dict_get (disappeared s') ?k = Some 0"
      by simp
  }
  {
    assume u: "r \<notin> fst ` set ?ps"
    then have "r \<in> set (unmatched_rows s ds)"
      using assms(3) by (simp add: unmatched_rows_def)
    with sl have "?k \<in> set lost" by auto
    moreover note cu = committed_unmatched [OF d rng r u, of ds s]
    moreover have "aged_counter ?s2 ?k = aged_counter s ?k \<and> expires ?s2 ?k = expires s ?k"
      using d2 cu(2) m2 by (intro aged_counter_cong) simp_all
    ultimately show "dict_get (disappeared s') ?k = aged_counter s ?k
         \<and> dict_get (paths s') ?k = (if expires s ?k then None else Some (snd (paths s ! r)))"
      using get p2 pk by simp
  }
qed

lemma update_new:
  assumes "tracker_inv s" "update s ds = Inr s'" "i < length (unmatched_cols s ds)"
  shows "dict_get (paths s') (next_id s + i) = Some [ds ! (unmatched_cols s ds ! i)]"
    and "dict_get (disappeared s') (next_id s + i) = Some 0"
proof -
  let ?oids = "dict_keys (paths s)"
  let ?ps = "frame_matches s ds"
  let ?s1 = "fold (commit ?oids ds) ?ps s"
  let ?s2 = "register_all (map (\<lambda>col. ds ! col) (unmatched_cols s ds)) ?s1"
  let ?k = "next_id s + i"
  from update_phases [OF assms(1,2)] obtain lost where dl: "distinct lost"
    and sl: "set lost = (\<lambda>row. ?oids ! row) ` set (unmatched_rows s ds)"
    and eq: "disappear_all lost ?s2 = Inr s'" by blast
  note get = disappear_all_get [OF dl eq, of ?k]
  have len: "length ?oids = length (paths s)" by (simp add: dict_keys_def)
  have "?k \<notin> set lost"
  proof
    assume "?k \<in> set lost"
    with sl obtain r' where r': "r' \<in> set (unmatched_rows s ds)" "?oids ! r' = ?k" by auto
    then have "r' < length ?oids" using unmatched_rows_props(2) [of s ds] len by auto
    then have "?oids ! r' \<in> set ?oids" by simp
    then have "?oids ! r' < next_id s" using assms(1) by (simp add: tracker_inv_def)
    with r'(2) show False by simp
  qed
  with get assms(3) show "dict_get (paths s') ?k = Some [ds ! (unmatched_cols s ds ! i)]"
    and "dict_get (disappeared s') ?k = Some 0"
    by (simp_all add: register_all_paths_get register_all_disappeared_get fold_commit_fields)
qed

lemma update_other:
  assumes "tracker_inv s" "update s ds = Inr s'"
    and "k \<notin> set (dict_keys (paths s))"
    and "\<not> (next_id s \<le> k \<and> k < next_id s + length (unmatched_cols s ds))"
  shows "dict_get (paths s') k = None" and "dict_get (disappeared s') k = None"
proof -
  let ?oids = "dict_keys (paths s)"
  let ?ps = "frame_matches s ds"
  let ?s1 = "fold (commit ?oids ds) ?ps s"
  let ?s2 = "register_all (map (\<lambda>col. ds ! col) (unmatched_cols s ds)) ?s1"
  from update_phases [OF assms(1,2)] obtain lost where dl: "distinct lost"
    and sl: "set lost = (\<lambda>row. ?oids ! row) ` set (unmatched_rows s ds)"
    and eq: "disappear_all lost ?s2 = Inr s'" by blast
  note get = disappear_all_get [OF dl eq, of k]
  have len: "length ?oids = length (paths s)" by (simp add: dict_keys_def)
  have nl: "k \<notin> set lost"
  proof
    assume "k \<in> set lost"
    with sl obtain r' where r': "r' \<in> set (unmatched_rows s ds)" "?oids ! r' = k" by auto
    then have "r' < length ?oids" using unmatched_rows_props(2) [of s ds] len by auto
    then have "?oids ! r' \<in> set ?oids" by simp
    with r'(2) assms(3) show False by simp
  qed
  have ni: "k \<notin> (\<lambda>rc. ?oids ! fst rc) ` set ?ps"
  proof
    assume "k \<in> (\<lambda>rc. ?oids ! fst rc) ` set ?ps"
    then obtain rc where rc: "rc \<in> set ?ps" "k = ?oids ! fst rc" by auto
    then have "fst rc < length ?oids" using frame_matches_range [of s ds] len by force
    then have "?oids ! fst rc \<in> set ?oids" by simp
    with rc(2) assms(3) show False by simp
  qed
  have pn: "dict_get (paths s) k = None" using assms(3) by (simp add: dict_get_None_iff)
  have dn: "dict_get (disappeared s) k = None"
    using assms(1,3) by (simp add: dict_get_None_iff tracker_inv_def)
  show "dict_get (paths s') k = None"
    using get nl assms(4) pn
    by (simp add: register_all_paths_get fold_commit_fields fold_commit_paths_get)
  show "dict_get (disappeared s') k = None"
    using get nl ni assms(4) dn
    by (simp add: register_all_disappeared_get fold_commit_fields fold_commit_disappeared_get)
qed

subsection \<open>Facts about the loop after n committed matches\<close>

lemma matched_pairs_stage:
  assumes "distinct rs" "distinct cs" "n \<le> length (matched_pairs dm rs cs)"
  shows "matched_pairs dm
           (filter (\<lambda>r. r \<notin> fst ` set (take n (matched_pairs dm rs cs))) rs)
           (filter (\<lambda>c. c \<notin> snd ` set (take n (matched_pairs dm rs cs))) cs)
         = drop n (matched_pairs dm rs cs)"
  using assms
proof (induction rs cs arbitrary: n rule: loop_induct [where dm = dm])
  case (empty rs cs)
  then have "matched_pairs dm rs cs = []" by (simp add: matched_pairs_empty)
  then show ?case by simp
next
  case (stop rs cs i j)
  then have "matched_pairs dm rs cs = []" by (simp add: matched_pairs_stop)
  then show ?case by simp
next
  case (commit rs cs i j)
  have i: "i < length rs" and j: "j < length cs"
    using pick_in_range [OF commit(1-3)] by simp_all
  let ?ps = "matched_pairs dm (pop i rs) (pop j cs)"
  have eq: "matched_pairs dm rs cs = (rs ! i, cs ! j) # ?ps"
    by (rule matched_pairs_commit [OF commit(1-4)])
  show ?case
  proof (cases n)
    case 0
    then show ?thesis by simp
  next
    case (Suc m)
    with commit.prems(3) eq have m: "m \<le> length ?ps" by simp
    have fr: "filter (\<lambda>r. r \<notin> fst ` set (take m ?ps)) (pop i rs)
        = filter (\<lambda>r. r \<notin> fst ` set ((rs ! i, cs ! j) # take m ?ps)) rs"
      by (simp add: pop_filter [OF commit.prems(1) i] conj_commute)
    have fc: "filter (\<lambda>c. c \<notin> snd ` set (take m ?ps)) (pop j cs)
        = filter (\<lambda>c. c \<notin> snd ` set ((rs ! i, cs ! j) # take m ?ps)) cs"
      by (simp add: pop_filter [OF commit.prems(2) j] conj_commute)
    have "matched_pairs dm (filter (\<lambda>r. r \<notin> fst ` set (take m ?ps)) (pop i rs))
            (filter (\<lambda>c. c \<notin> snd ` set (take m ?ps)) (pop j cs)) = drop m ?ps"
      using commit.IH [OF distinct_pop [OF commit.prems(1)] distinct_pop [OF commit.prems(2)] m] .
    then show ?thesis unfolding fr fc eq Suc by simp
  qed
qed

lemma frame_stage:
  assumes "n \<le> length (frame_matches s ds)"
  shows "matched_pairs (frame_distances s ds) (rows_left s ds n) (cols_left s ds n)
           = drop n (frame_matches s ds)"
  using matched_pairs_stage [of "[0..<length (paths s)]" "[0..<length ds]" n "frame_distances s ds"]
    assms
  by (simp add: frame_matches_def rows_left_def cols_left_def)

lemma left_props:
  "distinct (rows_left s ds n)" "distinct (cols_left s ds n)"
  "set (rows_left s ds n) \<subseteq> {0..<length (paths s)}" "set (cols_left s ds n) \<subseteq> {0..<length ds}"
  by (auto simp: rows_left_def cols_left_def)

lemma left_final:
  "n = length (frame_matches s ds) \<Longrightarrow> rows_left s ds n = unmatched_rows s ds"
  "n = length (frame_matches s ds) \<Longrightarrow> cols_left s ds n = unmatched_cols s ds"
  by (simp_all add: rows_left_def cols_left_def unmatched_rows_def unmatched_cols_def)

lemma match_loop_stage:
  assumes "n \<le> length (frame_matches s ds)"
  shows "match_loop (frame_distances s ds) oids ds [0..<length (paths s)] [0..<length ds] s
           = match_loop (frame_distances s ds) oids ds (rows_left s ds n) (cols_left s ds n)
               (fold (commit oids ds) (take n (frame_matches s ds)) s)"
proof -
  let ?ps = "frame_matches s ds"
  let ?dm = "frame_distances s ds"
  have split: "?ps = take n ?ps @ drop n ?ps" by simp
  have sets: "set ?ps = set (take n ?ps) \<union> set (drop n ?ps)"
    by (metis split set_append)
  have L: "match_loop ?dm oids ds [0..<length (paths s)] [0..<length ds] s
      = (filter (\<lambda>r. r \<notin> fst ` set ?ps) [0..<length (paths s)],
         filter (\<lambda>c. c \<notin> snd ` set ?ps) [0..<length ds],
         fold (commit oids ds) ?ps s)"
    by (simp add: match_loop_fold frame_matches_def)
  have R: "match_loop ?dm oids ds (rows_left s ds n) (cols_left s ds n)
               (fold (commit oids ds) (take n ?ps) s)
      = (filter (\<lambda>r. r \<notin> fst ` set (drop n ?ps)) (rows_left s ds n),
         filter (\<lambda>c. c \<notin> snd ` set (drop n ?ps)) (cols_left s ds n),
         fold (commit oids ds) (drop n ?ps) (fold (commit oids ds) (take n ?ps) s))"
    by (simp add: match_loop_fold left_props frame_stage [OF assms])
  have f: "fold (commit oids ds) (drop n ?ps) (fold (commit oids ds) (take n ?ps) s)
      = fold (commit oids ds) ?ps s"
    by (metis split fold_append comp_apply)
  have fr: "filter (\<lambda>r. r \<notin> fst ` set (drop n ?ps)) (rows_left s ds n)
      = filter (\<lambda>r. r \<notin> fst ` set ?ps) [0..<length (paths s)]"
    unfolding rows_left_def filter_filter
    by (rule filter_cong [OF refl]) (auto simp: sets image_Un)
  have fc: "filter (\<lambda>c. c \<notin> snd ` set (drop n ?ps)) (cols_left s ds n)
      = filter (\<lambda>c. c \<notin> snd ` set ?ps) [0..<length ds]"
    unfolding cols_left_def filter_filter
    by (rule filter_cong [OF refl]) (auto simp: sets image_Un)
  show ?thesis unfolding L R f fr fc ..
qed

lemma stage_step:
  assumes "n \<le> length (frame_matches s ds)"
    and "rows_left s ds n \<noteq> []" "cols_left s ds n \<noteq> []"
    and "pick (frame_distances s ds) (rows_left s ds n) (cols_left s ds n) = (i, j)"
  shows "frame_distances s ds ! (rows_left s ds n ! i) ! (cols_left s ds n ! j) < 100 \<Longrightarrow>
           n < length (frame_matches s ds)
         \<and> frame_matches s ds ! n = (rows_left s ds n ! i, cols_left s ds n ! j)"
    and "\<not> frame_distances s ds ! (rows_left s ds n ! i) ! (cols_left s ds n ! j) < 100 \<Longrightarrow>
           n = length (frame_matches s ds)"
proof -
  let ?ps = "frame_matches s ds"
  note st = frame_stage [OF assms(1)]
  {
    assume "frame_distances s ds ! (rows_left s ds n ! i) ! (cols_left s ds n ! j) < 100"
    from matched_pairs_commit [OF assms(2-4) this] st
    have d: "drop n ?ps = (rows_left s ds n ! i, cols_left s ds n ! j)
        # matched_pairs (frame_distances s ds) (pop i (rows_left s ds n)) (pop j (cols_left s ds n))"
      by simp
    then have lt: "n < length ?ps" by (metis drop_eq_Nil2 list.distinct(1) not_le)
    moreover from d lt have "?ps ! n = (rows_left s ds n ! i, cols_left s ds n ! j)"
      by (metis hd_drop_conv_nth list.sel(1))
    ultimately show "n < length ?ps \<and> ?ps ! n = (rows_left s ds n ! i, cols_left s ds n ! j)" ..
  }
  {
    assume "\<not> frame_distances s ds ! (rows_left s ds n ! i) ! (cols_left s ds n ! j) < 100"
    from matched_pairs_stop [OF assms(2-4) this] st have "drop n ?ps = []" by simp
    with assms(1) show "n = length ?ps" by simp
  }
qed

lemma left_Suc:
  assumes "n < length (frame_matches s ds)"
  shows "set (rows_left s ds (Suc n)) = set (rows_left s ds n) - {fst (frame_matches s ds ! n)}"
    and "set (cols_left s ds (Suc n)) = set (cols_left s ds n) - {snd (frame_matches s ds ! n)}"
  using assms by (auto simp: rows_left_def cols_left_def take_Suc_conv_app_nth)

lemma frame_distances_nth:
  assumes "r < length (paths s)" "c < length ds"
  shows "frame_distances s ds ! r ! c = projr (centroid_distance (last (snd (paths s ! r))) (ds ! c))"
  using assms by (simp add: frame_distances_def)

subsection \<open>Facts about sequences of updates\<close>

lemma updates_append:
  "updates s (xs @ ys) = (case updates s xs of Inl e \<Rightarrow> Inl e | Inr s1 \<Rightarrow> updates s1 ys)"
  by (induction xs arbitrary: s) (auto split: sum.splits)

lemma update_absent_stays:
  assumes "tracker_inv s" "update s ds = Inr s'" "k < next_id s"
    and "k \<notin> set (dict_keys (paths s))"
  shows "k \<notin> set (dict_keys (paths s'))" "k \<notin> set (dict_keys (disappeared s'))"
  using update_other [OF assms(1,2,4)] assms(3)
  by (simp_all add: dict_get_None_iff)

lemma updates_fields:
  assumes "tracker_inv s" "updates s frames = Inr s'"
  shows "next_id s \<le> next_id s'" "max_disappeared s' = max_disappeared s"
  using assms
proof (induction frames arbitrary: s)
  case Nil
  { case 1 then show ?case by simp }
  { case 2 then show ?case by simp }
next
  case (Cons ds frames)
  { case 1
    from 1(2) obtain s1 where a: "update s ds = Inr s1" and b: "updates s1 frames = Inr s'"
      by (auto split: sum.splits)
    from Cons.IH(1) [OF tracker_inv_update [OF 1(1) a] b] update_fields(1) [OF 1(1) a]
    show ?case by simp }
  { case 2
    from 2(2) obtain s1 where a: "update s ds = Inr s1" and b: "updates s1 frames = Inr s'"
      by (auto split: sum.splits)
    from Cons.IH(2) [OF tracker_inv_update [OF 2(1) a] b] update_fields(2) [OF 2(1) a]
    show ?case by simp }
qed

lemma updates_absent_stays:
  assumes "tracker_inv s" "updates s frames = Inr s'" "k < next_id s"
    and "k \<notin> set (dict_keys (paths s))"
  shows "k \<notin> set (dict_keys (paths s'))"
  using assms
proof (induction frames arbitrary: s)
  case Nil
  then show ?case by simp
next
  case (Cons ds frames)
  from Cons.prems(2) obtain s1 where a: "update s ds = Inr s1" and b: "updates s1 frames = Inr s'"
    by (auto split: sum.splits)
  have "k < next_id s1" using update_fields(1) [OF Cons.prems(1) a] Cons.prems(3) by simp
  from Cons.IH [OF tracker_inv_update [OF Cons.prems(1) a] b this
      update_absent_stays(1) [OF Cons.prems(1) a Cons.prems(3,4)]]
  show ?case .
qed

lemma update_history_extends:
  assumes "tracker_inv s" "update s ds = Inr s'" "k < next_id s"
    and "dict_get (paths s') k = Some h'"
  shows "\<exists>h e. dict_get (paths s) k = Some h \<and> h' = h @ e"
proof (cases "k \<in> set (dict_keys (paths s))")
  case False
  from update_other(1) [OF assms(1,2) False] assms(3,4) show ?thesis by simp
next
  case True
  then obtain r where r: "r < length (paths s)" "dict_keys (paths s) ! r = k"
    by (auto simp: in_set_conv_nth dict_keys_def)
  have "distinct (dict_keys (paths s))" using assms(1) by (simp add: tracker_inv_def)
  from dict_get_nth [OF this r(1)] r(2)
  have pk: "dict_get (paths s) k = Some (snd (paths s ! r))" by simp
  show ?thesis
  proof (cases "r \<in> fst ` set (frame_matches s ds)")
    case True
    then obtain c where "(r, c) \<in> set (frame_matches s ds)" by force
    from update_old(1) [OF assms(1,2) r(1) this] r(2) assms(4) pk show ?thesis by simp
  next
    case False
    from update_old(2) [OF assms(1,2) r(1) False] r(2) assms(4) pk show ?thesis
      by (simp split: if_splits)
  qed
qed

lemma updates_history_extends:
  assumes "tracker_inv s" "updates s frames = Inr s'" "k < next_id s"
    and "dict_get (paths s') k = Some h'"
  shows "\<exists>h e. dict_get (paths s) k = Some h \<and> h' = h @ e"
  using assms
proof (induction frames arbitrary: s)
  case Nil
  then show ?case by simp
next
  case (Cons ds frames)
  from Cons.prems(2) obtain s1 where a: "update s ds = Inr s1" and b: "updates s1 frames = Inr s'"
    by (auto split: sum.splits)
  have "k < next_id s1" using update_fields(1) [OF Cons.prems(1) a] Cons.prems(3) by simp
  from Cons.IH [OF tracker_inv_update [OF Cons.prems(1) a] b this Cons.prems(4)]
  obtain h1 e1 where 1: "dict_get (paths s1) k = Some h1" "h' = h1 @ e1" by blast
  from update_history_extends [OF Cons.prems(1) a Cons.prems(3) 1(1)]
  obtain h e where "dict_get (paths s) k = Some h" "h1 = h @ e" by blast
  with 1(2) show ?case by simp
qed

lemma new_ids_update:
  assumes "tracker_inv s" "update s ds = Inr s'"
  shows "set (new_ids s s') = {next_id s ..< next_id s'}" "distinct (new_ids s s')"
proof -
  have inv': "tracker_inv s'" using assms by (rule tracker_inv_update)
  show "distinct (new_ids s s')"
    using inv' by (simp add: new_ids_def tracker_inv_def)
  show "set (new_ids s s') = {next_id s ..< next_id s'}"
  proof (intro equalityI subsetI)
    fix k assume "k \<in> set (new_ids s s')"
    then have k: "k \<in> set (dict_keys (paths s'))" "k \<notin> set (dict_keys (paths s))"
      by (simp_all add: new_ids_def)
    from k(1) have "dict_get (paths s') k \<noteq> None" by (simp add: dict_get_None_iff)
    with update_other(1) [OF assms k(2)]
    have "next_id s \<le> k \<and> k < next_id s + length (unmatched_cols s ds)" by blast
    then show "k \<in> {next_id s ..< next_id s'}"
      using update_fields(1) [OF assms] by simp
  next
    fix k assume "k \<in> {next_id s ..< next_id s'}"
    then have k: "next_id s \<le> k" "k - next_id s < length (unmatched_cols s ds)"
      using update_fields(1) [OF assms] by auto
    from update_new(1) [OF assms k(2)] k(1)
    have "dict_get (paths s') k \<noteq> None" by simp
    then have "k \<in> set (dict_keys (paths s'))" by (simp add: dict_get_None_iff)
    moreover have "k \<notin> set (dict_keys (paths s))"
    proof
      assume "k \<in> set (dict_keys (paths s))"
      then have "k < next_id s" using assms(1) unfolding tracker_inv_def by blast
      with k(1) show False by simp
    qed
    ultimately show "k \<in> set (new_ids s s')" by (simp add: new_ids_def)
  qed
qed

lemma issued_updates:
  assumes "tracker_inv s" "updates s frames = Inr s'"
  shows "set (issued s frames) = {next_id s ..< next_id s'} \<and> distinct (issued s frames)"
  using assms
proof (induction frames arbitrary: s)
  case Nil
  then show ?case by simp
next
  case (Cons ds frames)
  from Cons.prems(2) obtain s1 where a: "update s ds = Inr s1" and b: "updates s1 frames = Inr s'"
    by (auto split: sum.splits)
  note inv1 = tracker_inv_update [OF Cons.prems(1) a]
  note IH = Cons.IH [OF inv1 b]
  note n = new_ids_update [OF Cons.prems(1) a]
  have le: "next_id s \<le> next_id s1" "next_id s1 \<le> next_id s'"
    using update_fields(1) [OF Cons.prems(1) a] updates_fields(1) [OF inv1 b] by simp_all
  have "set (new_ids s s1) \<inter> set (issued s1 frames) = {}"
    using n(1) IH by auto
  moreover have "{next_id s ..< next_id s1} \<union> {next_id s1 ..< next_id s'}
      = {next_id s ..< next_id s'}"
    using le by auto
  ultimately show ?case using a n IH by simp
qed

section \<open>The claims\<close>

lemmas run_simps =
  update_def previous_centroids_def distance_matrix_def centroid_distance_def np_sub_def
  linalg_norm_def match_loop.simps submatrix_flat_def pop_def dict_append_def dict_keys_def
  dict_get_def dict_del_def disappear_def register_def Let_def PathTracker_init_def

subsection \<open>Cold start\<close>

text \<open>
  C4. Calling \<^verbatim>\<open>update\<close> with N detections on a tracker with no live track (both
  dictionaries empty) returns without error; the result has exactly N tracks, with the
  consecutive ids \<open>next_id, \<dots>, next_id + N - 1\<close> in the order of the detections, each
  with the one-element history of its detection and the missed counter 0, and
  \<open>next_id\<close> advanced by N. On a fresh tracker these are the ids \<open>0, \<dots>, N - 1\<close>.
\<close>

theorem cold_start:
  assumes "paths s = []" "disappeared s = []"
  shows "update s ds =
     Inr (s\<lparr>paths := zip [next_id s ..< next_id s + length ds] (map (\<lambda>d. [d]) ds),
            disappeared := map (\<lambda>k. (k, 0)) [next_id s ..< next_id s + length ds],
            next_id := next_id s + length ds\<rparr>)"
proof (cases "ds = []")
  case True
  with assms show ?thesis by (simp add: update_empty dict_keys_def)
next
  case False
  have "\<forall>k \<in> set (dict_keys (paths s)). k < next_id s"
    "\<forall>k \<in> set (dict_keys (disappeared s)). k < next_id s"
    using assms by (simp_all add: dict_keys_def)
  from register_all_fresh [OF this, of ds] assms
  have "paths (register_all ds s) = zip [next_id s ..< next_id s + length ds] (map (\<lambda>d. [d]) ds)"
    and "disappeared (register_all ds s) = map (\<lambda>k. (k, 0)) [next_id s ..< next_id s + length ds]"
    by simp_all
  then have "register_all ds s =
     s\<lparr>paths := zip [next_id s ..< next_id s + length ds] (map (\<lambda>d. [d]) ds),
       disappeared := map (\<lambda>k. (k, 0)) [next_id s ..< next_id s + length ds],
       next_id := next_id s + length ds\<rparr>"
    by (intro tracker.equality) (simp_all add: register_all_fields)
  with False assms(1) show ?thesis by (simp add: update_cold)
qed

theorem cold_start_witness:
  "paths PathTracker_init = [] \<and> disappeared PathTracker_init = [] \<and>
   update PathTracker_init [[0, 0, 9 / 10, 0], [5, 7, 8 / 10, 0], [5, 7, 8 / 10, 0]] =
     Inr \<lparr>paths = [(0, [[0, 0, 9 / 10, 0]]), (1, [[5, 7, 8 / 10, 0]]), (2, [[5, 7, 8 / 10, 0]])],
          disappeared = [(0, 0), (1, 0), (2, 0)], next_id = 3, max_disappeared = 10\<rparr>"
  using cold_start [of PathTracker_init "[[0, 0, 9 / 10, 0], [5, 7, 8 / 10, 0], [5, 7, 8 / 10, 0]]"]
  by (simp add: PathTracker_init_def upt_conv_Cons)

subsection \<open>Both dictionaries have the same keys\<close>

lemma update_same_keys:
  assumes "set (dict_keys (paths s)) = set (dict_keys (disappeared s))" "update s ds = Inr s'"
  shows "set (dict_keys (paths s')) = set (dict_keys (disappeared s'))"
proof (cases "ds = []")
  case True
  with assms show ?thesis by (simp add: update_empty disappear_all_keys)
next
  case ds: False
  show ?thesis
  proof (cases "paths s = []")
    case True
    with ds assms(2) have "s' = register_all ds s" by (simp add: update_cold)
    with assms(1) show ?thesis by (simp add: register_all_keys)
  next
    case False
    let ?oids = "dict_keys (paths s)"
    let ?s1 = "fold (commit ?oids ds) (frame_matches s ds) s"
    let ?s2 = "register_all (map (\<lambda>col. ds ! col) (unmatched_cols s ds)) ?s1"
    have ne: "[] \<notin> set (map snd (paths s))"
      using update_general_errors(1) [OF ds False] assms(2) by auto
    have ok: "shapes_ok s ds"
      using update_general_errors(2) [OF ds False ne] assms(2) by auto
    have eq: "disappear_all (map (\<lambda>row. ?oids ! row) (unmatched_rows s ds)) ?s2 = Inr s'"
      using update_general [OF ds False ne ok] assms(2) by simp
    have "(\<lambda>rc. ?oids ! fst rc) ` set (frame_matches s ds) \<subseteq> set ?oids"
    proof
      fix k assume "k \<in> (\<lambda>rc. ?oids ! fst rc) ` set (frame_matches s ds)"
      then obtain rc where rc: "rc \<in> set (frame_matches s ds)" "k = ?oids ! fst rc" by auto
      then have "fst rc < length ?oids"
        using frame_matches_range [of s ds] by (force simp: dict_keys_def)
      with rc(2) show "k \<in> set ?oids" by simp
    qed
    then have "set (dict_keys (paths ?s1)) = set (dict_keys (disappeared ?s1))"
      using assms(1) by (auto simp: fold_commit_fields fold_commit_disappeared_keys)
    then have "set (dict_keys (paths ?s2)) = set (dict_keys (disappeared ?s2))"
      by (simp add: register_all_keys fold_commit_fields)
    with eq show ?thesis by (rule disappear_all_keys)
  qed
qed

text \<open>
  C10. If the keys of \<^verbatim>\<open>paths\<close> and of \<^verbatim>\<open>disappeared\<close> are the same set (as on a
  fresh tracker), they are the same set after every sequence of \<^verbatim>\<open>update\<close> calls that
  return.
\<close>

theorem paths_disappeared_same_keys:
  assumes "set (dict_keys (paths s)) = set (dict_keys (disappeared s))"
    and "updates s frames = Inr s'"
  shows "set (dict_keys (paths s')) = set (dict_keys (disappeared s'))"
  using assms
proof (induction frames arbitrary: s)
  case Nil
  then show ?case by simp
next
  case (Cons ds frames)
  from Cons.prems(2) obtain s1 where 1: "update s ds = Inr s1" and 2: "updates s1 frames = Inr s'"
    by (auto split: sum.splits)
  from Cons.IH [OF update_same_keys [OF Cons.prems(1) 1] 2] show ?case .
qed

lemma run_example:
  "updates PathTracker_init [[[0, 0, 9 / 10, 0]], [[3, 4, 9 / 10, 0]], []] =
     Inr \<lparr>paths = [(0, [[0, 0, 9 / 10, 0], [3, 4, 9 / 10, 0]])], disappeared = [(0, 1)],
          next_id = 1, max_disappeared = 10\<rparr>"
  by (simp add: run_simps)

theorem paths_disappeared_same_keys_witness:
  "set (dict_keys (paths PathTracker_init)) = set (dict_keys (disappeared PathTracker_init)) \<and>
   updates PathTracker_init [[[0, 0, 9 / 10, 0]], [[3, 4, 9 / 10, 0]], []] =
     Inr \<lparr>paths = [(0, [[0, 0, 9 / 10, 0], [3, 4, 9 / 10, 0]])], disappeared = [(0, 1)],
          next_id = 1, max_disappeared = 10\<rparr> \<and>
   set (dict_keys (paths \<lparr>paths = [(0, [[0, 0, 9 / 10, 0], [3, 4, 9 / 10, 0]])],
          disappeared = [(0, 1)], next_id = 1, max_disappeared = 10\<rparr>))
     = set (dict_keys (disappeared \<lparr>paths = [(0, [[0, 0, 9 / 10, 0], [3, 4, 9 / 10, 0]])],
          disappeared = [(0, 1)], next_id = 1, max_disappeared = (10::nat)\<rparr>))"
proof -
  have h: "set (dict_keys (paths PathTracker_init)) = set (dict_keys (disappeared PathTracker_init))"
    by (simp add: PathTracker_init_def dict_keys_def)
  from paths_disappeared_same_keys [OF h run_example] h run_example show ?thesis by simp
qed

subsection \<open>A frame without detections\<close>

text \<open>
  C5. On a tracker that satisfies the invariant, \<^verbatim>\<open>update\<close> with an empty detection
  list returns without error. Every track that had the counter \<open>c\<close> has the counter
  \<open>c + 1\<close> and its history unchanged if \<open>c + 1 \<le> max_disappeared\<close>, and is removed
  from both dictionaries otherwise. No id is added, and \<open>next_id\<close> and
  \<open>max_disappeared\<close> are unchanged. The returned mapping is the field \<open>paths\<close> of the
  result.
\<close>

theorem update_no_detections:
  assumes "tracker_inv s"
  shows "\<exists>s'. update s [] = Inr s' \<and> next_id s' = next_id s
           \<and> max_disappeared s' = max_disappeared s
           \<and> (\<forall>k c. dict_get (disappeared s) k = Some c \<longrightarrow>
                 (if max_disappeared s < c + 1
                  then dict_get (disappeared s') k = None \<and> dict_get (paths s') k = None
                  else dict_get (disappeared s') k = Some (c + 1)
                     \<and> dict_get (paths s') k = dict_get (paths s) k))
           \<and> (\<forall>k. dict_get (disappeared s) k = None \<longrightarrow>
                 dict_get (disappeared s') k = None \<and> dict_get (paths s') k = None)"
proof -
  have d: "distinct (dict_keys (disappeared s))"
    and ks: "set (dict_keys (paths s)) = set (dict_keys (disappeared s))"
    using assms by (simp_all add: tracker_inv_def)
  from disappear_all_total [OF d] ks obtain s' where
    eq: "disappear_all (dict_keys (disappeared s)) s = Inr s'" by auto
  note get = disappear_all_get [OF d eq]
  note fields = disappear_all_fields [OF eq]
  have a: "dict_get (disappeared s) k = Some c \<Longrightarrow>
             (if max_disappeared s < c + 1
              then dict_get (disappeared s') k = None \<and> dict_get (paths s') k = None
              else dict_get (disappeared s') k = Some (c + 1)
                 \<and> dict_get (paths s') k = dict_get (paths s) k)" for k c
    using get [of k] dict_get_Some_key [of "disappeared s" k c]
    by (simp add: aged_counter_def expires_def)
  have b: "dict_get (disappeared s) k = None \<Longrightarrow>
             dict_get (disappeared s') k = None \<and> dict_get (paths s') k = None" for k
    using get [of k] ks by (simp add: dict_get_None_iff)
  from eq fields a b show ?thesis
    by (simp add: update_empty)
qed

theorem update_no_detections_witness:
  "tracker_inv \<lparr>paths = [(0, [[0, 0, 1, 0]]), (3, [[5, 5, 1, 0]])],
                disappeared = [(0, 10), (3, 2)], next_id = 4, max_disappeared = 10\<rparr> \<and>
   update \<lparr>paths = [(0, [[0, 0, 1, 0]]), (3, [[5, 5, 1, 0]])],
           disappeared = [(0, 10), (3, 2)], next_id = 4, max_disappeared = 10\<rparr> []
     = Inr \<lparr>paths = [(3, [[5, 5, 1, 0]])], disappeared = [(3, 3)], next_id = 4,
            max_disappeared = 10\<rparr>"
proof -
  let ?s = "\<lparr>paths = [(0, [[0, 0, 1, 0]]), (3, [[5, 5, 1, 0 :: real]])],
             disappeared = [(0, 10), (3, 2)], next_id = 4, max_disappeared = 10\<rparr>"
  have h: "tracker_inv ?s" by (simp add: tracker_inv_def dict_keys_def)
  from update_no_detections [OF h] obtain s' where "update ?s [] = Inr s'" by blast
  moreover have "update ?s [] = Inr \<lparr>paths = [(3, [[5, 5, 1, 0]])], disappeared = [(3, 3)],
      next_id = 4, max_disappeared = 10\<rparr>"
    by (simp add: run_simps)
  ultimately show ?thesis using h by simp
qed

subsection \<open>Greedy matching\<close>

text \<open>
  C1. In the general case of \<^verbatim>\<open>update\<close> (tracker invariant, live tracks and
  detections present, the call returns), consider the loop after \<open>n\<close> committed matches,
  with both index lists non-empty, and the pair \<open>(row, col)\<close> it selects. The loop is
  then indeed at these index lists. The selected pair has the smallest distance among
  all remaining pairs of a track and a detection, the distance being that of the last
  observation of the track and the detection. If it is below 100, the pair is the next
  committed match: the detection is appended to the history of that track, the counter of
  the track is 0, and both indices leave the lists. Otherwise the matching has ended:
  the committed matches are exactly the \<open>n\<close> made so far. In both cases every detection
  unmatched at the end seeds a new track with the next ids, in order.
\<close>

theorem greedy_matching:
  assumes "tracker_inv s" "ds \<noteq> []" "paths s \<noteq> []" "update s ds = Inr s'"
    and "n \<le> length (frame_matches s ds)"
    and "rows_left s ds n \<noteq> []" "cols_left s ds n \<noteq> []"
    and "pick (frame_distances s ds) (rows_left s ds n) (cols_left s ds n) = (i, j)"
    and "row = rows_left s ds n ! i" "col = cols_left s ds n ! j"
  shows "match_loop (frame_distances s ds) (dict_keys (paths s)) ds
             [0..<length (paths s)] [0..<length ds] s
           = match_loop (frame_distances s ds) (dict_keys (paths s)) ds
               (rows_left s ds n) (cols_left s ds n)
               (fold (commit (dict_keys (paths s)) ds) (take n (frame_matches s ds)) s)
       \<and> row \<in> set (rows_left s ds n) \<and> col \<in> set (cols_left s ds n)
       \<and> (\<forall>r \<in> set (rows_left s ds n). \<forall>c \<in> set (cols_left s ds n).
             frame_distances s ds ! row ! col \<le> frame_distances s ds ! r ! c)
       \<and> centroid_distance (last (snd (paths s ! row))) (ds ! col)
             = Inr (frame_distances s ds ! row ! col)
       \<and> (frame_distances s ds ! row ! col < 100 \<longrightarrow>
             n < length (frame_matches s ds) \<and> frame_matches s ds ! n = (row, col)
           \<and> dict_get (paths s') (dict_keys (paths s) ! row)
               = Some (snd (paths s ! row) @ [ds ! col])
           \<and> dict_get (disappeared s') (dict_keys (paths s) ! row) = Some 0
           \<and> set (rows_left s ds (Suc n)) = set (rows_left s ds n) - {row}
           \<and> set (cols_left s ds (Suc n)) = set (cols_left s ds n) - {col})
       \<and> (\<not> frame_distances s ds ! row ! col < 100 \<longrightarrow>
             n = length (frame_matches s ds) \<and> cols_left s ds n = unmatched_cols s ds)
       \<and> next_id s' = next_id s + length (unmatched_cols s ds)
       \<and> (\<forall>m < length (unmatched_cols s ds).
             dict_get (paths s') (next_id s + m) = Some [ds ! (unmatched_cols s ds ! m)]
           \<and> dict_get (disappeared s') (next_id s + m) = Some 0)"
proof -
  let ?dm = "frame_distances s ds"
  let ?ps = "frame_matches s ds"
  have ij: "i < length (rows_left s ds n)" "j < length (cols_left s ds n)"
    using pick_in_range [OF assms(6-8)] by simp_all
  then have mem: "row \<in> set (rows_left s ds n)" "col \<in> set (cols_left s ds n)"
    using assms(9,10) by simp_all
  then have rng: "row < length (paths s)" "col < length ds"
    using left_props(3,4) [of s ds n] by auto
  have ne: "[] \<notin> set (map snd (paths s))"
    using assms(1) by (simp add: tracker_inv_def)
  have ok: "shapes_ok s ds"
    using update_general_errors(2) [OF assms(2,3) ne] assms(4) by auto
  have "\<not> isl (centroid_distance (last (snd (paths s ! row))) (ds ! col))"
    using ok rng by (simp add: shapes_ok_def)
  then have dist: "centroid_distance (last (snd (paths s ! row))) (ds ! col) = Inr (?dm ! row ! col)"
    using frame_distances_nth [OF rng]
    by (cases "centroid_distance (last (snd (paths s ! row))) (ds ! col)") simp_all
  have min: "\<forall>r \<in> set (rows_left s ds n). \<forall>c \<in> set (cols_left s ds n).
      ?dm ! row ! col \<le> ?dm ! r ! c"
    using pick_min [OF assms(6-8)] assms(9,10) by simp
  have below: "?dm ! row ! col < 100 \<longrightarrow>
        n < length ?ps \<and> ?ps ! n = (row, col)
      \<and> dict_get (paths s') (dict_keys (paths s) ! row) = Some (snd (paths s ! row) @ [ds ! col])
      \<and> dict_get (disappeared s') (dict_keys (paths s) ! row) = Some 0
      \<and> set (rows_left s ds (Suc n)) = set (rows_left s ds n) - {row}
      \<and> set (cols_left s ds (Suc n)) = set (cols_left s ds n) - {col}"
  proof
    assume lt: "?dm ! row ! col < 100"
    then have "?dm ! (rows_left s ds n ! i) ! (cols_left s ds n ! j) < 100"
      unfolding assms(9,10) .
    from stage_step(1) [OF assms(5-8) this]
    have n: "n < length ?ps" and p: "?ps ! n = (row, col)"
      unfolding assms(9,10) by blast+
    from n p have "(row, col) \<in> set ?ps" by (metis nth_mem)
    from update_old(1) [OF assms(1,4) rng(1) this]
    have h: "dict_get (paths s') (dict_keys (paths s) ! row) = Some (snd (paths s ! row) @ [ds ! col])"
      "dict_get (disappeared s') (dict_keys (paths s) ! row) = Some 0"
      by blast+
    have rl: "set (rows_left s ds (Suc n)) = set (rows_left s ds n) - {row}"
      using left_Suc(1) [OF n] unfolding p by (simp only: fst_conv)
    have cl: "set (cols_left s ds (Suc n)) = set (cols_left s ds n) - {col}"
      using left_Suc(2) [OF n] unfolding p by (simp only: snd_conv)
    from n p h rl cl
    show "n < length ?ps \<and> ?ps ! n = (row, col)
      \<and> dict_get (paths s') (dict_keys (paths s) ! row) = Some (snd (paths s ! row) @ [ds ! col])
      \<and> dict_get (disappeared s') (dict_keys (paths s) ! row) = Some 0
      \<and> set (rows_left s ds (Suc n)) = set (rows_left s ds n) - {row}
      \<and> set (cols_left s ds (Suc n)) = set (cols_left s ds n) - {col}"
      by (intro conjI)
  qed
  have above: "\<not> ?dm ! row ! col < 100 \<longrightarrow>
      n = length ?ps \<and> cols_left s ds n = unmatched_cols s ds"
  proof
    assume "\<not> ?dm ! row ! col < 100"
    then have "\<not> ?dm ! (rows_left s ds n ! i) ! (cols_left s ds n ! j) < 100"
      unfolding assms(9,10) .
    from stage_step(2) [OF assms(5-8) this] have n: "n = length ?ps" .
    from n left_final(2) [OF n] show "n = length ?ps \<and> cols_left s ds n = unmatched_cols s ds"
      by (intro conjI)
  qed
  have new: "\<forall>m < length (unmatched_cols s ds).
        dict_get (paths s') (next_id s + m) = Some [ds ! (unmatched_cols s ds ! m)]
      \<and> dict_get (disappeared s') (next_id s + m) = Some 0"
    using update_new [OF assms(1,4)] by blast
  note stage = match_loop_stage [OF assms(5), of "dict_keys (paths s)"]
  note nid = update_fields(1) [OF assms(1,4)]
  from stage mem min dist below above nid new
  show ?thesis by (intro conjI)
qed

subsection \<open>A frame with two tracks and two detections\<close>

lemma two_tracks_distances:
  "distance_matrix [[0, 0, 1, 0], [50, 0, 1, 0]] [[53, 0, 1, 0], [200, 0, 1, 0]]
     = Inr [[53, 200], [3, 150]]"
  by (simp add: distance_matrix_def centroid_distance_def np_sub_def linalg_norm_def)

lemma two_tracks_example:
  "update \<lparr>paths = [(0, [[0, 0, 1, 0]]), (1, [[50, 0, 1, 0]])],
           disappeared = [(0, 0), (1, 3)], next_id = 2, max_disappeared = 10\<rparr>
     [[53, 0, 1, 0], [200, 0, 1, 0]]
   = Inr \<lparr>paths = [(0, [[0, 0, 1, 0]]), (1, [[50, 0, 1, 0], [53, 0, 1, 0]]),
                   (2, [[200, 0, 1, 0]])],
          disappeared = [(0, 1), (1, 0), (2, 0)], next_id = 3, max_disappeared = 10\<rparr>"
  apply (simp add: update_def previous_centroids_def two_tracks_distances dict_keys_def)
  apply (subst match_loop.simps)
  apply (simp add: submatrix_flat_def pop_def dict_append_def Let_def)
  apply (subst match_loop.simps)
  apply (simp add: submatrix_flat_def pop_def dict_append_def Let_def register_def
      disappear_def dict_get_def dict_del_def dict_keys_def)
  done

lemma two_tracks_inv:
  "tracker_inv \<lparr>paths = [(0, [[0, 0, 1, 0]]), (1, [[50, 0, 1, 0]])],
                disappeared = [(0, 0), (1, 3)], next_id = 2, max_disappeared = 10\<rparr>"
  by (simp add: tracker_inv_def dict_keys_def)

lemma two_tracks_frame_distances:
  "frame_distances \<lparr>paths = [(0, [[0, 0, 1, 0]]), (1, [[50, 0, 1, 0]])],
                disappeared = [(0, 0), (1, 3)], next_id = 2, max_disappeared = 10\<rparr>
     [[53, 0, 1, 0], [200, 0, 1, 0]] = [[53, 200], [3, 150]]"
  by (simp add: frame_distances_def centroid_distance_def np_sub_def linalg_norm_def)

lemma two_tracks_pick: "pick [[53, 200], [3, 150]] [0, 1] [0, 1] = (1, 0)"
  by (simp add: pick_def submatrix_flat_def)

theorem greedy_matching_witness:
  "tracker_inv \<lparr>paths = [(0, [[0, 0, 1, 0]]), (1, [[50, 0, 1, 0]])],
                disappeared = [(0, 0), (1, 3)], next_id = 2, max_disappeared = 10\<rparr> \<and>
   update \<lparr>paths = [(0, [[0, 0, 1, 0]]), (1, [[50, 0, 1, 0]])],
           disappeared = [(0, 0), (1, 3)], next_id = 2, max_disappeared = 10\<rparr>
     [[53, 0, 1, 0], [200, 0, 1, 0]]
   = Inr \<lparr>paths = [(0, [[0, 0, 1, 0]]), (1, [[50, 0, 1, 0], [53, 0, 1, 0]]),
                   (2, [[200, 0, 1, 0]])],
          disappeared = [(0, 1), (1, 0), (2, 0)], next_id = 3, max_disappeared = 10\<rparr> \<and>
   pick (frame_distances \<lparr>paths = [(0, [[0, 0, 1, 0]]), (1, [[50, 0, 1, 0]])],
           disappeared = [(0, 0), (1, 3)], next_id = 2, max_disappeared = 10\<rparr>
           [[53, 0, 1, 0], [200, 0, 1, 0]]) [0, 1] [0, 1] = (1, 0) \<and>
   frame_matches \<lparr>paths = [(0, [[0, 0, 1, 0]]), (1, [[50, 0, 1, 0]])],
           disappeared = [(0, 0), (1, 3)], next_id = 2, max_disappeared = 10\<rparr>
           [[53, 0, 1, 0], [200, 0, 1, 0]] ! 0 = (1, 0)"
proof -
  let ?s = "\<lparr>paths = [(0, [[0, 0, 1, 0 :: real]]), (1, [[50, 0, 1, 0]])],
             disappeared = [(0, 0), (1, 3)], next_id = 2, max_disappeared = 10\<rparr>"
  let ?ds = "[[53, 0, 1, 0], [200, 0, 1, 0 :: real]]"
  have rl: "rows_left ?s ?ds 0 = [0, 1]" and cl: "cols_left ?s ?ds 0 = [0, 1]"
    by (simp_all add: rows_left_def cols_left_def upt_conv_Cons)
  have pk': "pick (frame_distances ?s ?ds) [0, 1] [0, 1] = (1, 0)"
    by (simp only: two_tracks_frame_distances two_tracks_pick)
  have h2: "?ds \<noteq> []" and h3: "paths ?s \<noteq> []"
    and h5: "0 \<le> length (frame_matches ?s ?ds)" by simp_all
  have h6: "rows_left ?s ?ds 0 \<noteq> []" and h7: "cols_left ?s ?ds 0 \<noteq> []"
    unfolding rl cl by simp_all
  have pk: "pick (frame_distances ?s ?ds) (rows_left ?s ?ds 0) (cols_left ?s ?ds 0) = (1, 0)"
    unfolding rl cl by (rule pk')
  have h9: "1 = rows_left ?s ?ds 0 ! 1" and h10: "0 = cols_left ?s ?ds 0 ! 0"
    unfolding rl cl by simp_all
  have lt: "frame_distances ?s ?ds ! 1 ! 0 < 100"
    unfolding two_tracks_frame_distances by simp
  note g = greedy_matching [OF two_tracks_inv h2 h3 two_tracks_example h5 h6 h7 pk h9 h10]
  from g lt have fm: "frame_matches ?s ?ds ! 0 = (1, 0)" by blast
  from two_tracks_inv two_tracks_example pk' fm show ?thesis by (intro conjI)
qed

subsection \<open>One detection per track, one track per detection\<close>

text \<open>
  C7. For every \<^verbatim>\<open>update\<close> that returns on a tracker satisfying the invariant, the
  committed matches are a one-to-one partial assignment of track indices to detection
  indices. A matched track has exactly its matched detection appended to its history; an
  unmatched track keeps its history or is removed; every unmatched detection is the
  single element of the history of one new track; no other id has a history. So no
  detection is appended to more than one history and no history receives more than one
  detection.
\<close>

theorem one_to_one_matching:
  assumes "tracker_inv s" "update s ds = Inr s'"
  shows "distinct (map fst (frame_matches s ds)) \<and> distinct (map snd (frame_matches s ds))
       \<and> set (frame_matches s ds) \<subseteq> {0..<length (paths s)} \<times> {0..<length ds}
       \<and> (\<forall>r c. (r, c) \<in> set (frame_matches s ds) \<longrightarrow>
            dict_get (paths s') (dict_keys (paths s) ! r) = Some (snd (paths s ! r) @ [ds ! c]))
       \<and> (\<forall>r < length (paths s). r \<notin> fst ` set (frame_matches s ds) \<longrightarrow>
            dict_get (paths s') (dict_keys (paths s) ! r) = None
          \<or> dict_get (paths s') (dict_keys (paths s) ! r) = Some (snd (paths s ! r)))
       \<and> distinct (unmatched_cols s ds)
       \<and> set (unmatched_cols s ds) = {0..<length ds} - snd ` set (frame_matches s ds)
       \<and> (\<forall>m < length (unmatched_cols s ds).
            dict_get (paths s') (next_id s + m) = Some [ds ! (unmatched_cols s ds ! m)])
       \<and> (\<forall>k. k \<notin> set (dict_keys (paths s)) \<longrightarrow>
            \<not> (next_id s \<le> k \<and> k < next_id s + length (unmatched_cols s ds)) \<longrightarrow>
            dict_get (paths s') k = None)"
proof (intro conjI allI impI)
  show "distinct (map fst (frame_matches s ds))" "distinct (map snd (frame_matches s ds))"
    by (rule frame_matches_distinct)+
  show "set (frame_matches s ds) \<subseteq> {0..<length (paths s)} \<times> {0..<length ds}"
    by (rule frame_matches_range)
  show "distinct (unmatched_cols s ds)" by (rule unmatched_cols_props)
  show "set (unmatched_cols s ds) = {0..<length ds} - snd ` set (frame_matches s ds)"
    by (auto simp: unmatched_cols_def)
next
  fix r c assume m: "(r, c) \<in> set (frame_matches s ds)"
  then have "r < length (paths s)" using frame_matches_range [of s ds] by auto
  from update_old(1) [OF assms this m]
  show "dict_get (paths s') (dict_keys (paths s) ! r) = Some (snd (paths s ! r) @ [ds ! c])"
    by simp
next
  fix r assume "r < length (paths s)" "r \<notin> fst ` set (frame_matches s ds)"
  from update_old(2) [OF assms this]
  show "dict_get (paths s') (dict_keys (paths s) ! r) = None
          \<or> dict_get (paths s') (dict_keys (paths s) ! r) = Some (snd (paths s ! r))"
    by (cases "expires s (dict_keys (paths s) ! r)") simp_all
next
  fix m assume "m < length (unmatched_cols s ds)"
  from update_new(1) [OF assms this]
  show "dict_get (paths s') (next_id s + m) = Some [ds ! (unmatched_cols s ds ! m)]" .
next
  fix k assume "k \<notin> set (dict_keys (paths s))"
    "\<not> (next_id s \<le> k \<and> k < next_id s + length (unmatched_cols s ds))"
  from update_other(1) [OF assms this] show "dict_get (paths s') k = None" .
qed

theorem one_to_one_matching_witness:
  "tracker_inv \<lparr>paths = [(0, [[0, 0, 1, 0]]), (1, [[50, 0, 1, 0]])],
                disappeared = [(0, 0), (1, 3)], next_id = 2, max_disappeared = 10\<rparr> \<and>
   update \<lparr>paths = [(0, [[0, 0, 1, 0]]), (1, [[50, 0, 1, 0]])],
           disappeared = [(0, 0), (1, 3)], next_id = 2, max_disappeared = 10\<rparr>
     [[53, 0, 1, 0], [200, 0, 1, 0]]
   = Inr \<lparr>paths = [(0, [[0, 0, 1, 0]]), (1, [[50, 0, 1, 0], [53, 0, 1, 0]]),
                   (2, [[200, 0, 1, 0]])],
          disappeared = [(0, 1), (1, 0), (2, 0)], next_id = 3, max_disappeared = 10\<rparr> \<and>
   distinct (map snd (frame_matches \<lparr>paths = [(0, [[0, 0, 1, 0]]), (1, [[50, 0, 1, 0]])],
           disappeared = [(0, 0), (1, 3)], next_id = 2, max_disappeared = 10\<rparr>
     [[53, 0, 1, 0], [200, 0, 1, 0]])) \<and>
   distinct (map fst (frame_matches \<lparr>paths = [(0, [[0, 0, 1, 0]]), (1, [[50, 0, 1, 0]])],
           disappeared = [(0, 0), (1, 3)], next_id = 2, max_disappeared = 10\<rparr>
     [[53, 0, 1, 0], [200, 0, 1, 0]]))"
  using one_to_one_matching [OF two_tracks_inv two_tracks_example]
    two_tracks_inv two_tracks_example
  by (intro conjI) blast+

subsection \<open>Ids are never issued twice\<close>

text \<open>
  C3. Along every sequence of \<^verbatim>\<open>update\<close> calls that return, from a tracker satisfying
  the invariant: \<^verbatim>\<open>next_id\<close> never decreases; the ids issued along the sequence are
  pairwise distinct and are exactly the ids from the old to the new value of
  \<^verbatim>\<open>next_id\<close>, so none of them is an id issued before; every live id is below
  \<^verbatim>\<open>next_id\<close>; an id below the old \<^verbatim>\<open>next_id\<close> that had no track (never such a track
  or a removed one) has no track afterwards, and one that has a track afterwards has its
  old history extended, not a new one.
\<close>

theorem ids_never_reissued:
  assumes "tracker_inv s" "updates s frames = Inr s'"
  shows "next_id s \<le> next_id s'
       \<and> distinct (issued s frames)
       \<and> set (issued s frames) = {next_id s ..< next_id s'}
       \<and> (\<forall>k \<in> set (dict_keys (paths s')). k < next_id s')
       \<and> (\<forall>k < next_id s. k \<notin> set (dict_keys (paths s)) \<longrightarrow> k \<notin> set (dict_keys (paths s')))
       \<and> (\<forall>k < next_id s. \<forall>h'. dict_get (paths s') k = Some h' \<longrightarrow>
             (\<exists>h e. dict_get (paths s) k = Some h \<and> h' = h @ e))"
proof (intro conjI allI impI ballI)
  show "next_id s \<le> next_id s'" using assms by (rule updates_fields)
  show "distinct (issued s frames)" "set (issued s frames) = {next_id s ..< next_id s'}"
    using issued_updates [OF assms] by simp_all
next
  fix k assume "k \<in> set (dict_keys (paths s'))"
  moreover have "tracker_inv s'" using assms by (rule tracker_inv_updates)
  ultimately show "k < next_id s'" unfolding tracker_inv_def by blast
next
  fix k assume "k < next_id s" "k \<notin> set (dict_keys (paths s))"
  with assms show "k \<notin> set (dict_keys (paths s'))" by (rule updates_absent_stays)
next
  fix k h' assume "k < next_id s" "dict_get (paths s') k = Some h'"
  with assms show "\<exists>h e. dict_get (paths s) k = Some h \<and> h' = h @ e"
    by (rule updates_history_extends)
qed

lemma removal_example:
  "updates PathTracker_init
     [[[0, 0, 1, 0]], [], [], [], [], [], [], [], [], [], [], [], [[0, 0, 1, 0]]]
   = Inr \<lparr>paths = [(1, [[0, 0, 1, 0]])], disappeared = [(1, 0)], next_id = 2,
          max_disappeared = 10\<rparr>"
  by (simp add: update_def PathTracker_init_def register_def disappear_def dict_keys_def
      dict_get_def dict_del_def)

theorem ids_never_reissued_witness:
  "tracker_inv PathTracker_init \<and>
   updates PathTracker_init
     [[[0, 0, 1, 0]], [], [], [], [], [], [], [], [], [], [], [], [[0, 0, 1, 0]]]
   = Inr \<lparr>paths = [(1, [[0, 0, 1, 0]])], disappeared = [(1, 0)], next_id = 2,
          max_disappeared = 10\<rparr> \<and>
   set (issued PathTracker_init
     [[[0, 0, 1, 0]], [], [], [], [], [], [], [], [], [], [], [], [[0, 0, 1, 0]]]) = {0 ..< 2} \<and>
   distinct (issued PathTracker_init
     [[[0, 0, 1, 0]], [], [], [], [], [], [], [], [], [], [], [], [[0, 0, 1, 0]]])"
proof -
  note t = ids_never_reissued [OF tracker_inv_init removal_example]
  have n: "next_id PathTracker_init = 0"
    "next_id \<lparr>paths = [(1, [[0, 0, 1, 0 :: real]])], disappeared = [(1, 0)], next_id = 2,
          max_disappeared = 10\<rparr> = 2"
    by (simp_all add: PathTracker_init_def)
  from t have "set (issued PathTracker_init
     [[[0, 0, 1, 0]], [], [], [], [], [], [], [], [], [], [], [], [[0, 0, 1, 0]]]) = {0 ..< 2}"
    unfolding n by blast
  moreover from t have "distinct (issued PathTracker_init
     [[[0, 0, 1, 0]], [], [], [], [], [], [], [], [], [], [], [], [[0, 0, 1, 0]]])"
    by blast
  ultimately show ?thesis using tracker_inv_init removal_example by (intro conjI)
qed

subsection \<open>Removal after too many missed frames\<close>

lemma unmatched_count:
  assumes "tracker_inv s" "dict_get (disappeared s) k = Some c"
    and "updates s frames = Inr s'" "unmatched_during k s frames"
  shows "if c + length frames \<le> max_disappeared s
         then dict_get (disappeared s') k = Some (c + length frames)
            \<and> dict_get (paths s') k = dict_get (paths s) k
         else k \<notin> set (dict_keys (paths s')) \<and> k \<notin> set (dict_keys (disappeared s'))"
  using assms
proof (induction frames arbitrary: s c)
  case Nil
  have "c \<le> max_disappeared s"
    using Nil.prems(1,2) unfolding tracker_inv_get by blast
  with Nil show ?case by simp
next
  case (Cons ds frames)
  from Cons.prems(3) obtain s1 where a: "update s ds = Inr s1" and b: "updates s1 frames = Inr s'"
    by (auto split: sum.splits)
  from Cons.prems(4) a have um: "k \<notin> set (matched_ids s ds)"
    and ud: "unmatched_during k s1 frames" by simp_all
  note inv = Cons.prems(1)
  note inv1 = tracker_inv_update [OF inv a]
  have ks: "set (dict_keys (paths s)) = set (dict_keys (disappeared s))"
    and dk: "distinct (dict_keys (paths s))"
    using inv by (simp_all add: tracker_inv_def)
  have "k \<in> set (dict_keys (paths s))"
    using dict_get_Some_key [OF Cons.prems(2)] ks by simp
  then obtain r where r: "r < length (paths s)" "dict_keys (paths s) ! r = k"
    by (auto simp: in_set_conv_nth dict_keys_def)
  have pk: "dict_get (paths s) k = Some (snd (paths s ! r))"
    using dict_get_nth [OF dk r(1)] r(2) by simp
  have "r \<notin> fst ` set (frame_matches s ds)"
  proof
    assume "r \<in> fst ` set (frame_matches s ds)"
    then obtain rc where "rc \<in> set (frame_matches s ds)" "fst rc = r" by auto
    then have "dict_keys (paths s) ! r \<in> set (matched_ids s ds)"
      by (force simp: matched_ids_def)
    with um r(2) show False by simp
  qed
  from update_old(2) [OF inv a r(1) this] r(2)
  have d1: "dict_get (disappeared s1) k = aged_counter s k"
    and p1: "dict_get (paths s1) k = (if expires s k then None else Some (snd (paths s ! r)))"
    by simp_all
  have m1: "max_disappeared s1 = max_disappeared s" using update_fields(2) [OF inv a] .
  show ?case
  proof (cases "c + 1 \<le> max_disappeared s")
    case True
    then have "dict_get (disappeared s1) k = Some (c + 1)" "dict_get (paths s1) k = dict_get (paths s) k"
      using d1 p1 pk Cons.prems(2) by (simp_all add: aged_counter_def expires_def)
    with Cons.IH [OF inv1 _ b ud, of "c + 1"] m1 show ?thesis by simp
  next
    case False
    then have "dict_get (paths s1) k = None"
      using p1 Cons.prems(2) by (simp add: expires_def)
    then have n1: "k \<notin> set (dict_keys (paths s1))" by (simp add: dict_get_None_iff)
    have "k < next_id s" using inv \<open>k \<in> set (dict_keys (paths s))\<close>
      unfolding tracker_inv_def by blast
    then have "k < next_id s1" using update_fields(1) [OF inv a] by simp
    from updates_absent_stays [OF inv1 b this n1]
    have "k \<notin> set (dict_keys (paths s'))" .
    moreover have "set (dict_keys (paths s')) = set (dict_keys (disappeared s'))"
      using tracker_inv_updates [OF inv1 b] by (simp add: tracker_inv_def)
    ultimately show ?thesis using False by simp
  qed
qed

text \<open>
  C2. After every sequence of \<^verbatim>\<open>update\<close> calls that return, from a tracker satisfying
  the invariant (the fresh tracker does): an id is a key of \<^verbatim>\<open>paths\<close> if and only if it
  has a counter, and that counter is at most \<^verbatim>\<open>max_disappeared\<close>, which no call
  changes. A track with counter \<open>c\<close> that no frame of the sequence matches has the counter
  \<open>c\<close> plus the number of frames and its history unchanged as long as that is at most
  \<^verbatim>\<open>max_disappeared\<close>, and is in neither dictionary as soon as it is more. So a live
  track unmatched for \<open>max_disappeared + 1\<close> consecutive frames is absent after them and
  after every later sequence of calls.
\<close>

theorem eventual_removal:
  assumes "tracker_inv s" "updates s frames = Inr s'"
  shows "(\<forall>k. k \<in> set (dict_keys (paths s'))
            \<longleftrightarrow> (\<exists>c. dict_get (disappeared s') k = Some c \<and> c \<le> max_disappeared s'))
       \<and> max_disappeared s' = max_disappeared s
       \<and> (\<forall>k c. dict_get (disappeared s) k = Some c \<longrightarrow> unmatched_during k s frames \<longrightarrow>
            (if c + length frames \<le> max_disappeared s
             then dict_get (disappeared s') k = Some (c + length frames)
                \<and> dict_get (paths s') k = dict_get (paths s) k
             else k \<notin> set (dict_keys (paths s')) \<and> k \<notin> set (dict_keys (disappeared s'))))
       \<and> (\<forall>k later s''. k \<in> set (dict_keys (paths s)) \<longrightarrow> unmatched_during k s frames \<longrightarrow>
            length frames = max_disappeared s + 1 \<longrightarrow> updates s' later = Inr s'' \<longrightarrow>
            k \<notin> set (dict_keys (paths s'')))"
proof (intro conjI allI impI)
  have inv': "tracker_inv s'" using assms by (rule tracker_inv_updates)
  fix k
  show "k \<in> set (dict_keys (paths s'))
          \<longleftrightarrow> (\<exists>c. dict_get (disappeared s') k = Some c \<and> c \<le> max_disappeared s')"
  proof
    assume "k \<in> set (dict_keys (paths s'))"
    then have "k \<in> set (dict_keys (disappeared s'))"
      using inv' by (simp add: tracker_inv_def)
    then obtain c where c: "dict_get (disappeared s') k = Some c"
      using dict_key_get [of k "disappeared s'"] by blast
    moreover have "c \<le> max_disappeared s'"
      using inv' c unfolding tracker_inv_get by blast
    ultimately show "\<exists>c. dict_get (disappeared s') k = Some c \<and> c \<le> max_disappeared s'"
      by blast
  next
    assume "\<exists>c. dict_get (disappeared s') k = Some c \<and> c \<le> max_disappeared s'"
    then obtain c where "dict_get (disappeared s') k = Some c" by blast
    then have "k \<in> set (dict_keys (disappeared s'))" by (rule dict_get_Some_key)
    then show "k \<in> set (dict_keys (paths s'))"
      using inv' by (simp add: tracker_inv_def)
  qed
next
  show "max_disappeared s' = max_disappeared s" using assms by (rule updates_fields)
next
  fix k c assume "dict_get (disappeared s) k = Some c" "unmatched_during k s frames"
  from unmatched_count [OF assms(1) this(1) assms(2) this(2)]
  show "if c + length frames \<le> max_disappeared s
        then dict_get (disappeared s') k = Some (c + length frames)
           \<and> dict_get (paths s') k = dict_get (paths s) k
        else k \<notin> set (dict_keys (paths s')) \<and> k \<notin> set (dict_keys (disappeared s'))" .
next
  fix k later s''
  assume k: "k \<in> set (dict_keys (paths s))" and ud: "unmatched_during k s frames"
    and len: "length frames = max_disappeared s + 1" and l: "updates s' later = Inr s''"
  have inv': "tracker_inv s'" using assms by (rule tracker_inv_updates)
  from k have "k \<in> set (dict_keys (disappeared s))"
    using assms(1) by (simp add: tracker_inv_def)
  then obtain c where c: "dict_get (disappeared s) k = Some c"
    using dict_key_get [of k "disappeared s"] by blast
  from unmatched_count [OF assms(1) c assms(2) ud] len
  have gone: "k \<notin> set (dict_keys (paths s'))" by simp
  have "k < next_id s" using assms(1) k unfolding tracker_inv_def by blast
  then have "k < next_id s'" using updates_fields(1) [OF assms] by simp
  from updates_absent_stays [OF inv' l this gone] show "k \<notin> set (dict_keys (paths s''))" .
qed

lemma three_misses_inv:
  "tracker_inv \<lparr>paths = [(0, [[0, 0, 1, 0], [6, 8, 1, 0]])], disappeared = [(0, 0)],
                next_id = 1, max_disappeared = 2\<rparr>"
  by (simp add: tracker_inv_def dict_keys_def)

lemma three_misses_example:
  "updates \<lparr>paths = [(0, [[0, 0, 1, 0], [6, 8, 1, 0]])], disappeared = [(0, 0)],
            next_id = 1, max_disappeared = 2\<rparr> [[], [], []]
   = Inr \<lparr>paths = [], disappeared = [], next_id = 1, max_disappeared = 2\<rparr>"
  by (simp add: update_def register_def disappear_def dict_keys_def dict_get_def dict_del_def)

lemma three_misses_unmatched:
  "unmatched_during 0 \<lparr>paths = [(0, [[0, 0, 1, 0], [6, 8, 1, 0]])], disappeared = [(0, 0)],
            next_id = 1, max_disappeared = 2\<rparr> [[], [], []]"
  by (simp add: matched_ids_def frame_matches_trivial update_def register_def disappear_def
      dict_keys_def dict_get_def dict_del_def)

lemma after_removal_example:
  "updates \<lparr>paths = [], disappeared = [], next_id = 1, max_disappeared = 2\<rparr> [[[6, 8, 1, 0]]]
   = Inr \<lparr>paths = [(1, [[6, 8, 1, 0]])], disappeared = [(1, 0)], next_id = 2,
          max_disappeared = 2\<rparr>"
  by (simp add: update_def register_def)

theorem eventual_removal_witness:
  "tracker_inv \<lparr>paths = [(0, [[0, 0, 1, 0], [6, 8, 1, 0]])], disappeared = [(0, 0)],
                next_id = 1, max_disappeared = 2\<rparr> \<and>
   updates \<lparr>paths = [(0, [[0, 0, 1, 0], [6, 8, 1, 0]])], disappeared = [(0, 0)],
            next_id = 1, max_disappeared = 2\<rparr> [[], [], []]
   = Inr \<lparr>paths = [], disappeared = [], next_id = 1, max_disappeared = 2\<rparr> \<and>
   unmatched_during 0 \<lparr>paths = [(0, [[0, 0, 1, 0], [6, 8, 1, 0]])], disappeared = [(0, 0)],
            next_id = 1, max_disappeared = 2\<rparr> [[], [], []] \<and>
   updates \<lparr>paths = [], disappeared = [], next_id = 1, max_disappeared = 2\<rparr> [[[6, 8, 1, 0]]]
   = Inr \<lparr>paths = [(1, [[6, 8, 1, 0]])], disappeared = [(1, 0)], next_id = 2,
          max_disappeared = 2\<rparr> \<and>
   0 \<notin> set (dict_keys (paths \<lparr>paths = [(1, [[6, 8, 1, 0]])], disappeared = [(1, 0)],
          next_id = 2, max_disappeared = (2::nat)\<rparr>))"
proof -
  let ?s = "\<lparr>paths = [(0, [[0, 0, 1, 0], [6, 8, 1, 0 :: real]])], disappeared = [(0, 0)],
             next_id = 1, max_disappeared = 2\<rparr>"
  have k: "0 \<in> set (dict_keys (paths ?s))" by (simp add: dict_keys_def)
  have len: "length [[], [], [] :: obs list] = max_disappeared ?s + 1" by simp
  from eventual_removal [OF three_misses_inv three_misses_example] k three_misses_unmatched
    len after_removal_example
  have "0 \<notin> set (dict_keys (paths \<lparr>paths = [(1, [[6, 8, 1, 0]])], disappeared = [(1, 0)],
          next_id = 2, max_disappeared = (2::nat)\<rparr>))"
    by blast
  with three_misses_inv three_misses_example three_misses_unmatched after_removal_example
  show ?thesis by (intro conjI)
qed

subsection \<open>The threshold is strict\<close>

text \<open>
  C6. In the general case of \<^verbatim>\<open>update\<close> (tracker invariant, the call returns), the
  distance of a track and a detection being the entry of the matrix, which is what the
  code computes for the last observation of the track and the detection:
  a detection whose distance to every live track is at least 100, in particular exactly
  100 to the nearest one, is matched to no track and seeds a new track; every committed
  match has a distance strictly below 100 and appends the detection to the history of
  the track; and at every stage of the loop the pair it selects has the smallest
  distance among all remaining pairs, and is committed (detection appended to the
  history of the track, counter 0) if and only if that distance is strictly below 100;
  when it is not, the matching has ended and the detection of the pair stays unmatched.
\<close>

theorem strict_threshold:
  assumes "tracker_inv s" "ds \<noteq> []" "paths s \<noteq> []" "update s ds = Inr s'"
  shows "(\<forall>r < length (paths s). \<forall>c < length ds.
            centroid_distance (last (snd (paths s ! r))) (ds ! c)
              = Inr (frame_distances s ds ! r ! c))
       \<and> (\<forall>c < length ds. (\<forall>r < length (paths s). 100 \<le> frame_distances s ds ! r ! c) \<longrightarrow>
            c \<notin> snd ` set (frame_matches s ds)
          \<and> (\<exists>m < length (unmatched_cols s ds). unmatched_cols s ds ! m = c
                \<and> dict_get (paths s') (next_id s + m) = Some [ds ! c]))
       \<and> (\<forall>r c. (r, c) \<in> set (frame_matches s ds) \<longrightarrow>
            frame_distances s ds ! r ! c < 100
          \<and> dict_get (paths s') (dict_keys (paths s) ! r) = Some (snd (paths s ! r) @ [ds ! c]))
       \<and> (\<forall>n i j. n \<le> length (frame_matches s ds) \<longrightarrow>
            rows_left s ds n \<noteq> [] \<longrightarrow> cols_left s ds n \<noteq> [] \<longrightarrow>
            pick (frame_distances s ds) (rows_left s ds n) (cols_left s ds n) = (i, j) \<longrightarrow>
              (\<forall>r \<in> set (rows_left s ds n). \<forall>c \<in> set (cols_left s ds n).
                  frame_distances s ds ! (rows_left s ds n ! i) ! (cols_left s ds n ! j)
                    \<le> frame_distances s ds ! r ! c)
            \<and> (frame_distances s ds ! (rows_left s ds n ! i) ! (cols_left s ds n ! j) < 100
                 \<longleftrightarrow> n < length (frame_matches s ds)
                   \<and> frame_matches s ds ! n = (rows_left s ds n ! i, cols_left s ds n ! j))
            \<and> (frame_distances s ds ! (rows_left s ds n ! i) ! (cols_left s ds n ! j) < 100 \<longrightarrow>
                  dict_get (paths s') (dict_keys (paths s) ! (rows_left s ds n ! i))
                    = Some (snd (paths s ! (rows_left s ds n ! i)) @ [ds ! (cols_left s ds n ! j)])
                \<and> dict_get (disappeared s') (dict_keys (paths s) ! (rows_left s ds n ! i)) = Some 0)
            \<and> (\<not> frame_distances s ds ! (rows_left s ds n ! i) ! (cols_left s ds n ! j) < 100 \<longrightarrow>
                  n = length (frame_matches s ds)
                \<and> cols_left s ds n ! j \<in> set (unmatched_cols s ds)))"
proof (intro conjI allI impI ballI)
  fix r c assume rc: "r < length (paths s)" "c < length ds"
  have ne: "[] \<notin> set (map snd (paths s))"
    using assms(1) by (simp add: tracker_inv_def)
  have ok: "shapes_ok s ds"
    using update_general_errors(2) [OF assms(2,3) ne] assms(4) by auto
  have "\<not> isl (centroid_distance (last (snd (paths s ! r))) (ds ! c))"
    using ok rc by (simp add: shapes_ok_def)
  then show "centroid_distance (last (snd (paths s ! r))) (ds ! c)
      = Inr (frame_distances s ds ! r ! c)"
    using frame_distances_nth [OF rc]
    by (cases "centroid_distance (last (snd (paths s ! r))) (ds ! c)") simp_all
next
  fix c assume c: "c < length ds"
    and far: "\<forall>r < length (paths s). 100 \<le> frame_distances s ds ! r ! c"
  show nm: "c \<notin> snd ` set (frame_matches s ds)"
  proof
    assume "c \<in> snd ` set (frame_matches s ds)"
    then obtain r where m: "(r, c) \<in> set (frame_matches s ds)" by force
    then have "r < length (paths s)" using frame_matches_range [of s ds] by auto
    with far have "100 \<le> frame_distances s ds ! r ! c" by simp
    moreover from m have "frame_distances s ds ! r ! c < 100"
      unfolding frame_matches_def by (rule matched_pairs_below)
    ultimately show False by simp
  qed
  with c have "c \<in> set (unmatched_cols s ds)" by (simp add: unmatched_cols_def)
  then obtain m where m: "m < length (unmatched_cols s ds)" "unmatched_cols s ds ! m = c"
    by (auto simp: in_set_conv_nth)
  from update_new(1) [OF assms(1,4) m(1)] m
  show "\<exists>m < length (unmatched_cols s ds). unmatched_cols s ds ! m = c
          \<and> dict_get (paths s') (next_id s + m) = Some [ds ! c]"
    by auto
next
  fix r c assume m: "(r, c) \<in> set (frame_matches s ds)"
  then show "frame_distances s ds ! r ! c < 100"
    unfolding frame_matches_def by (rule matched_pairs_below)
  from m have "r < length (paths s)" using frame_matches_range [of s ds] by auto
  from update_old(1) [OF assms(1,4) this m]
  show "dict_get (paths s') (dict_keys (paths s) ! r) = Some (snd (paths s ! r) @ [ds ! c])"
    by simp
next
  fix n i j r c
  assume n: "n \<le> length (frame_matches s ds)"
    and ne: "rows_left s ds n \<noteq> []" "cols_left s ds n \<noteq> []"
    and pk: "pick (frame_distances s ds) (rows_left s ds n) (cols_left s ds n) = (i, j)"
    and rc: "r \<in> set (rows_left s ds n)" "c \<in> set (cols_left s ds n)"
  from pick_min [OF ne pk rc]
  show "frame_distances s ds ! (rows_left s ds n ! i) ! (cols_left s ds n ! j)
          \<le> frame_distances s ds ! r ! c" .
next
  fix n i j
  assume n: "n \<le> length (frame_matches s ds)"
    and ne: "rows_left s ds n \<noteq> []" "cols_left s ds n \<noteq> []"
    and pk: "pick (frame_distances s ds) (rows_left s ds n) (cols_left s ds n) = (i, j)"
  show "frame_distances s ds ! (rows_left s ds n ! i) ! (cols_left s ds n ! j) < 100
         \<longleftrightarrow> n < length (frame_matches s ds)
           \<and> frame_matches s ds ! n = (rows_left s ds n ! i, cols_left s ds n ! j)"
    using stage_step [OF n ne pk] by auto
next
  fix n i j
  assume n: "n \<le> length (frame_matches s ds)"
    and ne: "rows_left s ds n \<noteq> []" "cols_left s ds n \<noteq> []"
    and pk: "pick (frame_distances s ds) (rows_left s ds n) (cols_left s ds n) = (i, j)"
    and lt: "frame_distances s ds ! (rows_left s ds n ! i) ! (cols_left s ds n ! j) < 100"
  let ?row = "rows_left s ds n ! i" and ?col = "cols_left s ds n ! j"
  from stage_step(1) [OF n ne pk lt]
  have "n < length (frame_matches s ds)" "frame_matches s ds ! n = (?row, ?col)" by blast+
  then have m: "(?row, ?col) \<in> set (frame_matches s ds)" by (metis nth_mem)
  then have "?row < length (paths s)" using frame_matches_range [of s ds] by auto
  from update_old(1) [OF assms(1,4) this m]
  show "dict_get (paths s') (dict_keys (paths s) ! ?row) = Some (snd (paths s ! ?row) @ [ds ! ?col])"
    and "dict_get (disappeared s') (dict_keys (paths s) ! ?row) = Some 0"
    by blast+
next
  fix n i j
  assume n: "n \<le> length (frame_matches s ds)"
    and ne: "rows_left s ds n \<noteq> []" "cols_left s ds n \<noteq> []"
    and pk: "pick (frame_distances s ds) (rows_left s ds n) (cols_left s ds n) = (i, j)"
    and ge: "\<not> frame_distances s ds ! (rows_left s ds n ! i) ! (cols_left s ds n ! j) < 100"
  from stage_step(2) [OF n ne pk ge] show e: "n = length (frame_matches s ds)" .
  have "j < length (cols_left s ds n)" using pick_in_range(2) [OF ne pk] .
  then have "cols_left s ds n ! j \<in> set (cols_left s ds n)" by simp
  with left_final(2) [OF e] show "cols_left s ds n ! j \<in> set (unmatched_cols s ds)" by simp
qed


lemma unravel_3_2:
  "Suc (Suc (Suc 0)) div Suc (Suc 0) = Suc 0" "Suc (Suc (Suc 0)) mod Suc (Suc 0) = Suc 0"
proof -
  have e: "Suc (Suc (Suc 0)) = 3" "Suc (Suc 0) = 2" by simp_all
  show "Suc (Suc (Suc 0)) div Suc (Suc 0) = Suc 0" "Suc (Suc (Suc 0)) mod Suc (Suc 0) = Suc 0"
    unfolding e by simp_all
qed

lemma threshold_frame_inv:
  "tracker_inv \<lparr>paths = [(0, [[0, 0, 1, 0]]), (1, [[200, 0, 1, 0]])],
                disappeared = [(0, 0), (1, 0)], next_id = 2, max_disappeared = 10\<rparr>"
  by (simp add: tracker_inv_def dict_keys_def)

lemma threshold_frame_matrix:
  "distance_matrix [[0, 0, 1, 0], [200, 0, 1, 0]] [[100, 0, 1, 0], [205, 0, 1, 0]]
     = Inr [[100, 205], [100, 5]]"
  by (simp add: distance_matrix_def centroid_distance_def np_sub_def linalg_norm_def)

lemma threshold_frame_example:
  "update \<lparr>paths = [(0, [[0, 0, 1, 0]]), (1, [[200, 0, 1, 0]])],
           disappeared = [(0, 0), (1, 0)], next_id = 2, max_disappeared = 10\<rparr>
     [[100, 0, 1, 0], [205, 0, 1, 0]]
   = Inr \<lparr>paths = [(0, [[0, 0, 1, 0]]), (1, [[200, 0, 1, 0], [205, 0, 1, 0]]),
                   (2, [[100, 0, 1, 0]])],
          disappeared = [(0, 1), (1, 0), (2, 0)], next_id = 3, max_disappeared = 10\<rparr>"
  apply (simp add: update_def previous_centroids_def threshold_frame_matrix dict_keys_def)
  apply (subst match_loop.simps)
  apply (simp add: submatrix_flat_def pop_def dict_append_def Let_def unravel_3_2)
  apply (subst match_loop.simps)
  apply (simp add: submatrix_flat_def pop_def dict_append_def Let_def register_def
      disappear_def dict_get_def dict_del_def dict_keys_def)
  done

lemma threshold_frame_distances:
  "frame_distances \<lparr>paths = [(0, [[0, 0, 1, 0]]), (1, [[200, 0, 1, 0]])],
                disappeared = [(0, 0), (1, 0)], next_id = 2, max_disappeared = 10\<rparr>
     [[100, 0, 1, 0], [205, 0, 1, 0]] = [[100, 205], [100, 5]]"
  by (simp add: frame_distances_def centroid_distance_def np_sub_def linalg_norm_def)

theorem strict_threshold_witness:
  "tracker_inv \<lparr>paths = [(0, [[0, 0, 1, 0]]), (1, [[200, 0, 1, 0]])],
                disappeared = [(0, 0), (1, 0)], next_id = 2, max_disappeared = 10\<rparr> \<and>
   update \<lparr>paths = [(0, [[0, 0, 1, 0]]), (1, [[200, 0, 1, 0]])],
           disappeared = [(0, 0), (1, 0)], next_id = 2, max_disappeared = 10\<rparr>
     [[100, 0, 1, 0], [205, 0, 1, 0]]
   = Inr \<lparr>paths = [(0, [[0, 0, 1, 0]]), (1, [[200, 0, 1, 0], [205, 0, 1, 0]]),
                   (2, [[100, 0, 1, 0]])],
          disappeared = [(0, 1), (1, 0), (2, 0)], next_id = 3, max_disappeared = 10\<rparr> \<and>
   frame_distances \<lparr>paths = [(0, [[0, 0, 1, 0]]), (1, [[200, 0, 1, 0]])],
                disappeared = [(0, 0), (1, 0)], next_id = 2, max_disappeared = 10\<rparr>
     [[100, 0, 1, 0], [205, 0, 1, 0]] = [[100, 205], [100, 5]] \<and>
   frame_matches \<lparr>paths = [(0, [[0, 0, 1, 0]]), (1, [[200, 0, 1, 0]])],
                disappeared = [(0, 0), (1, 0)], next_id = 2, max_disappeared = 10\<rparr>
     [[100, 0, 1, 0], [205, 0, 1, 0]] = [(1, 1)] \<and>
   0 \<in> set (unmatched_cols \<lparr>paths = [(0, [[0, 0, 1, 0]]), (1, [[200, 0, 1, 0]])],
                disappeared = [(0, 0), (1, 0)], next_id = 2, max_disappeared = 10\<rparr>
     [[100, 0, 1, 0], [205, 0, 1, 0]])"
proof -
  let ?s = "\<lparr>paths = [(0, [[0, 0, 1, 0 :: real]]), (1, [[200, 0, 1, 0]])],
             disappeared = [(0, 0), (1, 0)], next_id = 2, max_disappeared = 10\<rparr>"
  let ?ds = "[[100, 0, 1, 0], [205, 0, 1, 0 :: real]]"
  let ?ps = "frame_matches ?s ?ds"
  note fd = threshold_frame_distances
  have h2: "?ds \<noteq> []" and h3: "paths ?s \<noteq> []" by simp_all
  note t = strict_threshold [OF threshold_frame_inv h2 h3 threshold_frame_example]
  note t4 = t [THEN conjunct2, THEN conjunct2, THEN conjunct2, rule_format]
  \<comment> \<open>the first selection: track 1 and detection 1, at distance 5\<close>
  have rl: "rows_left ?s ?ds 0 = [0, 1]" and cl: "cols_left ?s ?ds 0 = [0, 1]"
    by (simp_all add: rows_left_def cols_left_def upt_conv_Cons)
  have a5: "0 \<le> length ?ps" by simp
  have a6: "rows_left ?s ?ds 0 \<noteq> []" and a7: "cols_left ?s ?ds 0 \<noteq> []"
    unfolding rl cl by simp_all
  have pk0: "pick (frame_distances ?s ?ds) (rows_left ?s ?ds 0) (cols_left ?s ?ds 0) = (1, 1)"
    unfolding rl cl fd by (simp add: pick_def submatrix_flat_def unravel_3_2)
  have r1: "rows_left ?s ?ds 0 ! 1 = 1" and c1: "cols_left ?s ?ds 0 ! 1 = 1"
    unfolding rl cl by simp_all
  have lt0: "frame_distances ?s ?ds ! (rows_left ?s ?ds 0 ! 1) ! (cols_left ?s ?ds 0 ! 1) < 100"
    unfolding r1 c1 fd by simp
  from t4 [OF a5 a6 a7 pk0] lt0
  have "0 < length ?ps \<and> ?ps ! 0 = (rows_left ?s ?ds 0 ! 1, cols_left ?s ?ds 0 ! 1)" by blast
  then have m0: "0 < length ?ps" "?ps ! 0 = (1, 1)" unfolding r1 c1 by blast+
  \<comment> \<open>the second selection: track 0 and detection 0, at distance exactly 100\<close>
  have "take (Suc 0) ?ps = take 0 ?ps @ [?ps ! 0]"
    using m0(1) by (rule take_Suc_conv_app_nth)
  then have tk: "take 1 ?ps = [(1, 1)]" unfolding m0(2) by simp
  have rl1: "rows_left ?s ?ds 1 = [0]" and cl1: "cols_left ?s ?ds 1 = [0]"
    unfolding rows_left_def cols_left_def tk by (simp_all add: upt_conv_Cons)
  have b5: "1 \<le> length ?ps" using m0(1) by linarith
  have b6: "rows_left ?s ?ds 1 \<noteq> []" and b7: "cols_left ?s ?ds 1 \<noteq> []"
    unfolding rl1 cl1 by simp_all
  have pk1: "pick (frame_distances ?s ?ds) (rows_left ?s ?ds 1) (cols_left ?s ?ds 1) = (0, 0)"
    unfolding rl1 cl1 fd by (simp add: pick_def submatrix_flat_def)
  have r0: "rows_left ?s ?ds 1 ! 0 = 0" and c0: "cols_left ?s ?ds 1 ! 0 = 0"
    unfolding rl1 cl1 by simp_all
  have ge1: "\<not> frame_distances ?s ?ds ! (rows_left ?s ?ds 1 ! 0) ! (cols_left ?s ?ds 1 ! 0) < 100"
    unfolding r0 c0 fd by simp
  from t4 [OF b5 b6 b7 pk1] ge1
  have "1 = length ?ps \<and> cols_left ?s ?ds 1 ! 0 \<in> set (unmatched_cols ?s ?ds)" by blast
  then have len: "length ?ps = 1" and um: "0 \<in> set (unmatched_cols ?s ?ds)"
    unfolding c0 by simp_all
  from len obtain x where x: "?ps = [x]" by (cases ?ps) auto
  with m0(2) have fm: "?ps = [(1, 1)]" by simp
  from threshold_frame_inv threshold_frame_example fd fm um show ?thesis by (intro conjI)
qed

subsection \<open>Malformed observations\<close>

text \<open>
  C9, as the code has it. \<^verbatim>\<open>update\<close> has no \<^verbatim>\<open>InvalidInput\<close> signal and does not look
  at the fields of an observation before storing it: on a tracker with no live track,
  every non-empty detection list is accepted without error, whatever the lengths of its
  observations (position fields missing or not), and each observation becomes the
  one-element history of a new track with the counter 0.
\<close>

theorem update_does_not_validate:
  assumes "paths s = []" "ds \<noteq> []"
  shows "\<exists>s'. update s ds = Inr s' \<and> next_id s' = next_id s + length ds
           \<and> (\<forall>i < length ds.
                 dict_get (paths s') (next_id s + i) = Some [ds ! i]
               \<and> dict_get (disappeared s') (next_id s + i) = Some 0)"
proof -
  have "update s ds = Inr (register_all ds s)"
    using assms(2,1) by (rule update_cold)
  moreover have "next_id (register_all ds s) = next_id s + length ds"
    by (rule register_all_fields)
  moreover have "\<forall>i < length ds.
      dict_get (paths (register_all ds s)) (next_id s + i) = Some [ds ! i]
    \<and> dict_get (disappeared (register_all ds s)) (next_id s + i) = Some 0"
    by (simp add: register_all_paths_get register_all_disappeared_get)
  ultimately show ?thesis by blast
qed

theorem update_does_not_validate_witness:
  "paths PathTracker_init = [] \<and> [[5], []] \<noteq> ([] :: obs list) \<and>
   update PathTracker_init [[5], []]
     = Inr \<lparr>paths = [(0, [[5]]), (1, [[]])], disappeared = [(0, 0), (1, 0)], next_id = 2,
            max_disappeared = 10\<rparr> \<and>
   dict_get (paths \<lparr>paths = [(0, [[5]]), (1, [[]])], disappeared = [(0, 0), (1, 0)],
            next_id = 2, max_disappeared = (10::nat)\<rparr>) 1 = Some [[] :: obs]"
proof -
  have h1: "paths PathTracker_init = []" by (simp add: PathTracker_init_def)
  have h2: "[[5], []] \<noteq> ([] :: obs list)" by simp
  have e: "update PathTracker_init [[5], []]
     = Inr \<lparr>paths = [(0, [[5]]), (1, [[]])], disappeared = [(0, 0), (1, 0)], next_id = 2,
            max_disappeared = 10\<rparr>"
    by (simp add: update_def PathTracker_init_def register_def)
  from update_does_not_validate [OF h1 h2] obtain s' where
    s': "update PathTracker_init [[5], []] = Inr s'"
    and g: "\<forall>i < length [[5], [] :: obs].
        dict_get (paths s') (next_id PathTracker_init + i) = Some [[[5], []] ! i]"
    by blast
  from s' e have eq: "s' = \<lparr>paths = [(0, [[5]]), (1, [[]])], disappeared = [(0, 0), (1, 0)],
      next_id = 2, max_disappeared = 10\<rparr>" by simp
  have "1 < length [[5], [] :: obs]" by simp
  from g [rule_format, OF this]
  have "dict_get (paths s') 1 = Some [[] :: obs]"
    by (simp add: PathTracker_init_def)
  with h1 h2 e show ?thesis unfolding eq by (intro conjI)
qed

theorem malformed_observation_accepted:
  "update PathTracker_init [[5]] =
     Inr \<lparr>paths = [(0, [[5]])], disappeared = [(0, 0)], next_id = 1, max_disappeared = 10\<rparr>"
  by (simp add: update_def PathTracker_init_def register_def)

text \<open>
  The general case does not look at the fields either. An example: against a track at
  \<^verbatim>\<open>(0, 0)\<close> the one-field observation \<^verbatim>\<open>(0,)\<close> is broadcast by the subtraction,
  gets the distance 0 and is appended to the history of the track.
\<close>

lemma one_field_observation_matched:
  "update \<lparr>paths = [(0, [[0, 0, 1, 0]])], disappeared = [(0, 3)], next_id = 1,
           max_disappeared = 10\<rparr> [[0]]
   = Inr \<lparr>paths = [(0, [[0, 0, 1, 0], [0]])], disappeared = [(0, 0)], next_id = 1,
          max_disappeared = 10\<rparr>"
  apply (simp add: update_def previous_centroids_def distance_matrix_def centroid_distance_def
      np_sub_def linalg_norm_def dict_keys_def)
  apply (subst match_loop.simps)
  apply (simp add: submatrix_flat_def pop_def dict_append_def)
  apply (subst match_loop.simps)
  apply simp
  done

subsection \<open>Speed\<close>

text \<open>
  C8, as the code has it. With fewer than two points \<^verbatim>\<open>calculate_speed\<close> returns the
  integer 0, for every time interval, zero included. With at least two points there is
  no guard on the interval: for a zero interval (of either sign) it returns the result
  of the float division by zero, which is an infinity or \<^verbatim>\<open>nan\<close> and never a zero,
  whatever the float arithmetic rounds to.
\<close>

theorem calculate_speed_cases:
  "(length ps < 2 \<longrightarrow> calculate_speed fa ps t = PyInt 0) \<and>
   (2 \<le> length ps \<longrightarrow> is_zero t \<longrightarrow>
      (calculate_speed fa ps t = NpFloat PosInf \<or> calculate_speed fa ps t = NpFloat NegInf
         \<or> calculate_speed fa ps t = NpFloat NaN)
    \<and> \<not> is_zero_number (calculate_speed fa ps t))"
proof (intro conjI impI)
  show "length ps < 2 \<Longrightarrow> calculate_speed fa ps t = PyInt 0"
    by (simp add: calculate_speed_def)
next
  assume len: "2 \<le> length ps" and z: "is_zero t"
  let ?d = "fhypot fa (fsub fa (fst (ps ! (length ps - 1))) (fst (ps ! (length ps - 2))))
                      (fsub fa (snd (ps ! (length ps - 1))) (snd (ps ! (length ps - 2))))"
  have eq: "calculate_speed fa ps t = NpFloat (np_divide fa ?d t)"
    using len by (simp add: calculate_speed_def Let_def)
  have d: "np_divide fa ?d t = PosInf \<or> np_divide fa ?d t = NegInf \<or> np_divide fa ?d t = NaN"
    using z by (simp add: np_divide_def)
  then show "calculate_speed fa ps t = NpFloat PosInf \<or> calculate_speed fa ps t = NpFloat NegInf
         \<or> calculate_speed fa ps t = NpFloat NaN"
    unfolding eq by simp
  from d show "\<not> is_zero_number (calculate_speed fa ps t)"
    unfolding eq by (auto simp: is_zero_def)
qed

theorem calculate_speed_cases_witness:
  "\<forall>fa. length [(Finite 1, Finite 1)] < 2
      \<and> calculate_speed fa [(Finite 1, Finite 1)] (Finite 0) = PyInt 0
      \<and> 2 \<le> length [(Finite 0, Finite 0), (Finite 3, Finite 4)]
      \<and> is_zero NegZero
      \<and> \<not> is_zero_number (calculate_speed fa [(Finite 0, Finite 0), (Finite 3, Finite 4)] NegZero)"
proof
  fix fa
  have a: "length [(Finite 1, Finite 1)] < 2" by simp
  have b: "2 \<le> length [(Finite 0, Finite 0), (Finite 3, Finite 4)]" by simp
  have c: "is_zero NegZero" by (simp add: is_zero_def)
  note t1 = calculate_speed_cases [of "[(Finite 1, Finite 1)]" fa "Finite 0"]
  note t2 = calculate_speed_cases [of "[(Finite 0, Finite 0), (Finite 3, Finite 4)]" fa NegZero]
  from t1 a have 1: "calculate_speed fa [(Finite 1, Finite 1)] (Finite 0) = PyInt 0" by blast
  from t2 b c
  have 2: "\<not> is_zero_number (calculate_speed fa [(Finite 0, Finite 0), (Finite 3, Finite 4)] NegZero)"
    by blast
  from a 1 b c 2
  show "length [(Finite 1, Finite 1)] < 2
      \<and> calculate_speed fa [(Finite 1, Finite 1)] (Finite 0) = PyInt 0
      \<and> 2 \<le> length [(Finite 0, Finite 0), (Finite 3, Finite 4)]
      \<and> is_zero NegZero
      \<and> \<not> is_zero_number (calculate_speed fa [(Finite 0, Finite 0), (Finite 3, Finite 4)] NegZero)"
    by (intro conjI)
qed

theorem zero_interval_not_zero:
  "\<forall>fa. \<not> is_zero_number
           (calculate_speed fa [(Finite 0, Finite 0), (Finite 3, Finite 4)] (Finite 0))"
  by (simp add: calculate_speed_def np_divide_def is_zero_def Let_def)

end
